theory Spec2Isabelle
  imports Complex_Main "HOL-Library.Word" "HOL-Library.Multiset" "HOL-Library.Signed_Division"
begin

section \<open>The stats command of gurnel (internal/gurnel/stats.go)\<close>

text \<open>
  The theory embeds the three parts of \<^verbatim>\<open>stats.go\<close> that carry its behaviour: the
  callback that \<^verbatim>\<open>walkFiles\<close> hands to \<^verbatim>\<open>filepath.Walk\<close>, the loop of \<^verbatim>\<open>Run\<close> that reads
  the result channel, and the report that \<^verbatim>\<open>Run\<close> prints afterwards.

  What the goroutines exchange is made an input of the model:
  \<^item> the result channel \<^verbatim>\<open>c\<close> is the list of results in the order in which \<^verbatim>\<open>Run\<close>
    receives them;
  \<^item> the channel \<^verbatim>\<open>errc\<close> is the one value the walker leaves in it;
  \<^item> the \<^verbatim>\<open>done\<close> channel is the number of sends the walker completes before a
    \<^verbatim>\<open>select\<close> takes the \<^verbatim>\<open>done\<close> branch (or none, when it never does);
  \<^item> the order in which \<^verbatim>\<open>range\<close> visits a Go map is unspecified, so it is an input too.
\<close>

subsection \<open>Values of the Go run time\<close>

text \<open>An \<^verbatim>\<open>error\<close> is its message; \<^verbatim>\<open>nil\<close> is \<open>None\<close>.\<close>

type_synonym error = string

text \<open>
  A \<^verbatim>\<open>time.Time\<close> is the instant it denotes, in nanoseconds since the Unix epoch (its
  location and its monotonic reading are left out); a \<^verbatim>\<open>time.Duration\<close> is a number of
  nanoseconds in the range of \<^verbatim>\<open>int64\<close>.
\<close>

type_synonym time = int
type_synonym duration = int

text \<open>
  A \<^verbatim>\<open>float64\<close> is the rational number it denotes or one of the three special values
  of IEEE 754; the sign of zero is not modelled. Every operation rounds its exact result
  to the nearest \<^verbatim>\<open>float64\<close>, ties to the even significand, as the hardware does.
\<close>

datatype float64 = Fin rat | PInf | NInf | NaN

text \<open>The integer nearest to a rational, the even one of two that are equally near.\<close>

definition rne :: "rat \<Rightarrow> int" where
  "rne q =
     (let k = \<lfloor>q\<rfloor>; d = q - of_int k
      in if d < 1 / 2 then k else if 1 / 2 < d then k + 1 else if even k then k else k + 1)"

text \<open>
  The binary exponent of a number that is not negative: the greatest \<open>e\<close> from \<open>- 1022\<close>
  to \<open>1024\<close> with \<open>2 powi e \<le> a\<close>, and \<open>- 1022\<close>, the exponent of the subnormal numbers,
  when there is none. \<open>binade k\<close> looks for it from \<open>k - 1022\<close> downwards.
\<close>

primrec binade :: "nat \<Rightarrow> rat \<Rightarrow> int" where
  "binade 0 a = - 1022"
| "binade (Suc k) a =
     (if 2 powi (int (Suc k) - 1022) \<le> a then int (Suc k) - 1022 else binade k a)"

definition exponent :: "rat \<Rightarrow> int" where
  "exponent a = binade 2046 a"

text \<open>
  Rounding: the numbers of a binade are 52 binary places apart, and a result of
  \<open>2 ^ 1024\<close> or more is infinite.
\<close>

definition overflow :: rat where
  "overflow = 2 ^ 1024"

definition round64 :: "rat \<Rightarrow> float64" where
  "round64 x =
     (let a = \<bar>x\<bar>; ulp = 2 powi (exponent a - 52); v = of_int (rne (a / ulp)) * ulp
      in if overflow \<le> v then (if 0 < x then PInf else NInf)
         else Fin (if 0 \<le> x then v else - v))"

fun fdiv :: "float64 \<Rightarrow> float64 \<Rightarrow> float64" where
  "fdiv NaN y = NaN"
| "fdiv x NaN = NaN"
| "fdiv (Fin a) (Fin b) =
     (if b = 0 then (if a = 0 then NaN else if 0 < a then PInf else NInf)
      else round64 (a / b))"
| "fdiv (Fin a) PInf = Fin 0"
| "fdiv (Fin a) NInf = Fin 0"
| "fdiv PInf (Fin b) = (if 0 \<le> b then PInf else NInf)"
| "fdiv NInf (Fin b) = (if 0 \<le> b then NInf else PInf)"
| "fdiv x y = NaN"

fun fmul :: "float64 \<Rightarrow> float64 \<Rightarrow> float64" where
  "fmul NaN y = NaN"
| "fmul x NaN = NaN"
| "fmul (Fin a) (Fin b) = round64 (a * b)"
| "fmul (Fin a) PInf = (if a = 0 then NaN else if 0 < a then PInf else NInf)"
| "fmul (Fin a) NInf = (if a = 0 then NaN else if 0 < a then NInf else PInf)"
| "fmul PInf (Fin b) = (if b = 0 then NaN else if 0 < b then PInf else NInf)"
| "fmul NInf (Fin b) = (if b = 0 then NaN else if 0 < b then NInf else PInf)"
| "fmul PInf PInf = PInf"
| "fmul NInf NInf = PInf"
| "fmul PInf NInf = NInf"
| "fmul NInf PInf = NInf"

fun fadd :: "float64 \<Rightarrow> float64 \<Rightarrow> float64" where
  "fadd NaN y = NaN"
| "fadd x NaN = NaN"
| "fadd (Fin a) (Fin b) = round64 (a + b)"
| "fadd (Fin a) y = y"
| "fadd x (Fin b) = x"
| "fadd PInf PInf = PInf"
| "fadd NInf NInf = NInf"
| "fadd x y = NaN"

text \<open>The comparison \<^verbatim>\<open>x > y\<close>: false as soon as one side is not a number.\<close>

fun fgt :: "float64 \<Rightarrow> float64 \<Rightarrow> bool" where
  "fgt NaN y = False"
| "fgt x NaN = False"
| "fgt (Fin a) (Fin b) = (b < a)"
| "fgt (Fin a) PInf = False"
| "fgt (Fin a) NInf = True"
| "fgt PInf PInf = False"
| "fgt PInf y = True"
| "fgt NInf y = False"

text \<open>
  The comparison \<^verbatim>\<open>x >= y\<close>, used to state that a list is in descending order.
\<close>

definition fge :: "float64 \<Rightarrow> float64 \<Rightarrow> bool" where
  "fge x y = (x \<noteq> NaN \<and> y \<noteq> NaN \<and> \<not> fgt y x)"

text \<open>\<^verbatim>\<open>math.Floor\<close>.\<close>

fun Floor :: "float64 \<Rightarrow> float64" where
  "Floor (Fin a) = Fin (of_int \<lfloor>a\<rfloor>)"
| "Floor x = x"

text \<open>The negation of a value, which is what \<^verbatim>\<open>* -1\<close> computes.\<close>

fun fneg :: "float64 \<Rightarrow> float64" where
  "fneg (Fin a) = Fin (- a)"
| "fneg PInf = NInf"
| "fneg NInf = PInf"
| "fneg NaN = NaN"

definition finite64 :: "float64 \<Rightarrow> bool" where
  "finite64 x = (case x of Fin a \<Rightarrow> True | _ \<Rightarrow> False)"

text \<open>The conversions \<^verbatim>\<open>float64(n)\<close> of a \<^verbatim>\<open>uint64\<close> and of an \<^verbatim>\<open>int64\<close>.\<close>

definition float64_of_uint64 :: "64 word \<Rightarrow> float64" where
  "float64_of_uint64 n = round64 (of_nat (unat n))"

definition float64_of_int :: "int \<Rightarrow> float64" where
  "float64_of_int n = round64 (of_int n)"

text \<open>
  \<^verbatim>\<open>Time.Sub\<close>: the difference of two instants, saturated to the least and the greatest
  \<^verbatim>\<open>Duration\<close>. \<^verbatim>\<open>Time.After\<close> compares the instants.
\<close>

definition minDuration :: duration where
  "minDuration = - (2 ^ 63)"

definition maxDuration :: duration where
  "maxDuration = 2 ^ 63 - 1"

definition Sub :: "time \<Rightarrow> time \<Rightarrow> duration" where
  "Sub t u =
     (let d = t - u
      in if minDuration \<le> d \<and> d \<le> maxDuration then d
         else if t < u then minDuration
         else maxDuration)"

definition After :: "time \<Rightarrow> time \<Rightarrow> bool" where
  "After t u = (u < t)"

text \<open>
  \<^verbatim>\<open>Duration.Hours\<close>: the whole hours (Go's division truncates) plus the rest as a
  fraction of an hour.
\<close>

definition Hour :: duration where
  "Hour = 3600000000000"

definition Hours :: "duration \<Rightarrow> float64" where
  "Hours d =
     (let hour = d sdiv Hour; nsec = d smod Hour
      in fadd (float64_of_int hour) (fdiv (float64_of_int nsec) (Fin (60 * 60 * 1000000000))))"

subsection \<open>The data of stats.go\<close>

text \<open>
  A Go map from words to counts is a partial function; reading a missing key gives the
  zero value, and \<^verbatim>\<open>uint64\<close> arithmetic wraps.
\<close>

type_synonym wordCounts = "string \<rightharpoonup> 64 word"

definition index0 :: "wordCounts \<Rightarrow> string \<Rightarrow> 64 word" where
  "index0 m w = (case m w of None \<Rightarrow> 0 | Some n \<Rightarrow> n)"

record result =
  wordMap :: wordCounts
  date :: time
  err :: "error option"

record wordStat =
  word :: string
  occurrences :: "64 word"
  frequency :: float64

text \<open>
  The reference table \<^verbatim>\<open>refFreqs\<close> is filled by generated code that is not part of the
  sources: it is a parameter, an association list of words and the numbers written for
  them. An empty list is the table of length 0; reading a word gives the \<^verbatim>\<open>float64\<close>
  nearest to its number, and 0 for a missing word.
\<close>

type_synonym refTable = "(string \<times> rat) list"

definition refIndex :: "refTable \<Rightarrow> string \<Rightarrow> float64" where
  "refIndex refFreqs w = round64 (case map_of refFreqs w of None \<Rightarrow> 0 | Some r \<Rightarrow> r)"

subsection \<open>walkFiles\<close>

text \<open>
  \<^verbatim>\<open>filepath.Walk\<close> calls the function it is given once for each file and directory
  under the root, in lexical order, and stops at the first call that returns an error.
  A \<open>visit\<close> holds the arguments of one call: the path, \<^verbatim>\<open>info.Name()\<close>,
  \<^verbatim>\<open>info.Mode().IsRegular()\<close> and the error. \<^verbatim>\<open>journalentry.IsEntry\<close> belongs to another
  module and is a parameter.
\<close>

record visit =
  path :: string
  name :: string
  isRegular :: bool
  walkErr :: "error option"

text \<open>
  The loop below runs the callback over the calls \<^verbatim>\<open>filepath.Walk\<close> would make. Its state
  is the \<^verbatim>\<open>visited\<close> map and what is left of \<open>sends\<close>: \<open>Some k\<close> when the first \<open>k\<close>
  sends on \<^verbatim>\<open>paths\<close> are taken by a scanner and the next \<^verbatim>\<open>select\<close> finds \<^verbatim>\<open>done\<close> closed,
  \<open>None\<close> when \<^verbatim>\<open>done\<close> is never chosen. It returns the visits whose paths were sent, in
  order, and the value written to \<^verbatim>\<open>errc\<close>.
\<close>

fun walkFn :: "(string \<Rightarrow> bool) \<Rightarrow> nat option \<Rightarrow> (string \<Rightarrow> bool) \<Rightarrow> visit list
    \<Rightarrow> visit list \<times> error option" where
  "walkFn IsEntry sends visited [] = ([], None)"
| "walkFn IsEntry sends visited (v # vs) =
     (case walkErr v of
        Some e \<Rightarrow> ([], Some e)
      | None \<Rightarrow>
          if \<not> isRegular v \<or> visited (name v) \<or> \<not> IsEntry (path v)
          then walkFn IsEntry sends visited vs
          else (case sends of
                  Some 0 \<Rightarrow> ([], Some ''walk canceled'')
                | Some (Suc k) \<Rightarrow>
                    (case walkFn IsEntry (Some k) (visited(name v := True)) vs of
                       (sent, e) \<Rightarrow> (v # sent, e))
                | None \<Rightarrow>
                    (case walkFn IsEntry None (visited(name v := True)) vs of
                       (sent, e) \<Rightarrow> (v # sent, e))))"

text \<open>
  \<^verbatim>\<open>walkFiles\<close> starts with an empty \<^verbatim>\<open>visited\<close> map; the \<^verbatim>\<open>paths\<close> channel carries the
  paths of the visits that were sent.
\<close>

definition walkFiles :: "(string \<Rightarrow> bool) \<Rightarrow> nat option \<Rightarrow> visit list
    \<Rightarrow> string list \<times> error option" where
  "walkFiles IsEntry sends vs =
     (case walkFn IsEntry sends (\<lambda>n. False) vs of (sent, e) \<Rightarrow> (map path sent, e))"

subsection \<open>Run: reading the result channel\<close>

text \<open>
  The local variables of the loop. \<^verbatim>\<open>entryCount\<close> is a \<^verbatim>\<open>float64\<close> that only ever holds a
  whole number: it is that number, and \<^verbatim>\<open>entryCount++\<close> stops having an effect at
  \<open>2 ^ 53\<close>, where the next whole number is no longer a \<^verbatim>\<open>float64\<close>.
\<close>

record locals =
  entryCount :: nat
  wordMapAcc :: wordCounts
  minDate :: time

definition increment :: "nat \<Rightarrow> nat" where
  "increment n = (if n < 2 ^ 53 then n + 1 else n)"

text \<open>
  \<^verbatim>\<open>for word, count := range r.wordMap { wordMap[word] += count }\<close>: every key of the
  file's map is visited once, so the loop is a pointwise update.
\<close>

definition addCounts :: "wordCounts \<Rightarrow> wordCounts \<Rightarrow> wordCounts" where
  "addCounts acc m =
     (\<lambda>w. case m w of None \<Rightarrow> acc w | Some n \<Rightarrow> Some (index0 acc w + n))"

definition initial :: "time \<Rightarrow> locals" where
  "initial t = \<lparr>entryCount = 0, wordMapAcc = Map.empty, minDate = t\<rparr>"

text \<open>The body of the loop for a result without error.\<close>

definition accumulate :: "locals \<Rightarrow> result \<Rightarrow> locals" where
  "accumulate s r =
     \<lparr>entryCount = increment (entryCount s),
      wordMapAcc = addCounts (wordMapAcc s) (wordMap r),
      minDate = (if After (minDate s) (date r) then date r else minDate s)\<rparr>"

text \<open>
  \<^verbatim>\<open>for r := range c\<close>: the loop returns the error of the first result that has one, or
  the locals once the channel is closed; with it, the results it has not received.
\<close>

fun receive :: "locals \<Rightarrow> result list \<Rightarrow> (error + locals) \<times> result list" where
  "receive s [] = (Inr s, [])"
| "receive s (r # c) =
     (case err r of
        Some e \<Rightarrow> (Inl e, c)
      | None \<Rightarrow> receive (accumulate s r) c)"

definition aggregate :: "time \<Rightarrow> result list \<Rightarrow> error + locals" where
  "aggregate t c = fst (receive (initial t) c)"

subsection \<open>Run: the report\<close>

text \<open>What \<^verbatim>\<open>Run\<close> writes to standard output, one value for each line.\<close>

datatype line =
  PercentLine float64 time
| TotalLine "64 word"
| AverageLine float64
| BlankLine
| FrequentHeader nat
| InfrequentHeader nat
| Row string float64

datatype status = Returned "error option" | Panicked string

record run =
  stdout :: "line list"
  status :: status
  unread :: "result list"

definition percentDivisor :: "time \<Rightarrow> time \<Rightarrow> float64" where
  "percentDivisor t d = Floor (fdiv (Hours (Sub t d)) (Fin 24))"

definition percent :: "time \<Rightarrow> locals \<Rightarrow> float64" where
  "percent t s = fdiv (Fin (of_nat (entryCount s))) (percentDivisor t (minDate s))"

text \<open>
  \<^verbatim>\<open>for _, count := range wordMap { wordCount += count }\<close>, over the keys in the order
  \<open>keys\<close> in which \<^verbatim>\<open>range\<close> visits them.
\<close>

definition sumCounts :: "wordCounts \<Rightarrow> string list \<Rightarrow> 64 word" where
  "sumCounts m keys = fold (\<lambda>w wordCount. wordCount + index0 m w) keys 0"

text \<open>Lines 96 to 105: the relative frequency of the word \<open>w\<close> with count \<open>n\<close>.\<close>

definition relFrequency :: "refTable \<Rightarrow> 64 word \<Rightarrow> string \<Rightarrow> 64 word \<Rightarrow> float64" where
  "relFrequency refFreqs wordCount w n =
     (let frequency = fdiv (float64_of_uint64 n) (float64_of_uint64 wordCount);
          refFrequency = refIndex refFreqs w
      in if fgt frequency refFrequency
         then (if fgt refFrequency (Fin 0) then fdiv frequency refFrequency else Fin 0)
         else fmul (fdiv refFrequency frequency) (Fin (- 1)))"

definition wordStats :: "refTable \<Rightarrow> 64 word \<Rightarrow> wordCounts \<Rightarrow> string list \<Rightarrow> wordStat list" where
  "wordStats refFreqs wordCount m keys =
     map (\<lambda>w. \<lparr>word = w, occurrences = index0 m w,
               frequency = relFrequency refFreqs wordCount w (index0 m w)\<rparr>) keys"

text \<open>
  \<^verbatim>\<open>sort.Slice\<close> belongs to the standard library. It is modelled by the insertion sort the
  library runs on a slice of at most 12 elements: each element in turn is swapped to the
  left for as long as \<^verbatim>\<open>less\<close> (here \<open>lt\<close>) puts it before its left neighbour. (On longer
  slices the library promises the same, a permutation ordered by \<^verbatim>\<open>less\<close>, and no order
  among elements neither of which is before the other.) \<open>shift\<close> works on the sorted prefix in
  reverse, nearest neighbour first.
\<close>

fun shift :: "('a \<Rightarrow> 'a \<Rightarrow> bool) \<Rightarrow> 'a \<Rightarrow> 'a list \<Rightarrow> 'a list" where
  "shift lt x [] = [x]"
| "shift lt x (y # ys) = (if lt x y then y # shift lt x ys else x # y # ys)"

definition sortSlice :: "('a \<Rightarrow> 'a \<Rightarrow> bool) \<Rightarrow> 'a list \<Rightarrow> 'a list" where
  "sortSlice lt xs = rev (fold (shift lt) xs [])"

definition byFrequency :: "wordStat \<Rightarrow> wordStat \<Rightarrow> bool" where
  "byFrequency a b = fgt (frequency a) (frequency b)"

definition ranked :: "refTable \<Rightarrow> 64 word \<Rightarrow> wordCounts \<Rightarrow> string list \<Rightarrow> wordStat list" where
  "ranked refFreqs wordCount m keys = sortSlice byFrequency (wordStats refFreqs wordCount m keys)"

definition topUnusualWordCount :: nat where
  "topUnusualWordCount = 100"

definition row :: "wordStat \<Rightarrow> line" where
  "row ws = Row (word ws) (frequency ws)"

text \<open>
  Lines 114 to 127. The slice expression \<^verbatim>\<open>wordStats[:topUnusualWordCount]\<close> panics when
  the slice is shorter, after the first header has been printed; past it, every index of
  the second loop is in range.
\<close>

definition lists :: "wordStat list \<Rightarrow> line list \<times> status" where
  "lists stats =
     (if length stats < topUnusualWordCount
      then ([FrequentHeader topUnusualWordCount], Panicked ''slice bounds out of range'')
      else ([FrequentHeader topUnusualWordCount]
            @ map row (take topUnusualWordCount stats)
            @ [BlankLine, InfrequentHeader topUnusualWordCount]
            @ map (\<lambda>i. row (stats ! (length stats - i))) [1 ..< Suc topUnusualWordCount],
            Returned None))"

text \<open>Lines 77 to 127: the body of \<^verbatim>\<open>if entryCount > 0\<close>.\<close>

definition report :: "time \<Rightarrow> refTable \<Rightarrow> locals \<Rightarrow> string list \<Rightarrow> line list \<times> status" where
  "report t refFreqs s keys =
     (let wordCount = sumCounts (wordMapAcc s) keys;
          avgCount = fdiv (float64_of_uint64 wordCount) (Fin (of_nat (entryCount s)));
          scalars = [PercentLine (fmul (percent t s) (Fin 100)) (minDate s),
                     TotalLine wordCount, AverageLine avgCount, BlankLine]
      in if refFreqs = [] then (scalars, Returned None)
         else (case lists (ranked refFreqs wordCount (wordMapAcc s) keys) of
                 (ls, st) \<Rightarrow> (scalars @ ls, st)))"

text \<open>
  \<^verbatim>\<open>Run\<close> from line 56 on, once the working directory is resolved and the goroutines are
  started: \<open>t\<close> is the value of \<^verbatim>\<open>time.Now()\<close>, \<open>c\<close> what the result channel delivers,
  \<open>errc\<close> the walker's error and \<open>keys\<close> the order in which \<^verbatim>\<open>range\<close> visits \<^verbatim>\<open>wordMap\<close>.
\<close>

definition Run :: "time \<Rightarrow> refTable \<Rightarrow> result list \<Rightarrow> error option \<Rightarrow> string list \<Rightarrow> run" where
  "Run t refFreqs c errc keys =
     (case receive (initial t) c of
        (Inl e, rest) \<Rightarrow> \<lparr>stdout = [], status = Returned (Some e), unread = rest\<rparr>
      | (Inr s, rest) \<Rightarrow>
          (case errc of
             Some e \<Rightarrow> \<lparr>stdout = [], status = Returned (Some e), unread = rest\<rparr>
           | None \<Rightarrow>
               if 0 < entryCount s
               then (case report t refFreqs s keys of
                       (ls, st) \<Rightarrow> \<lparr>stdout = ls, status = st, unread = rest\<rparr>)
               else \<lparr>stdout = [], status = Returned None, unread = rest\<rparr>))"


text \<open>
  The order \<open>keys\<close> is an order of \<^verbatim>\<open>range\<close> over the map \<open>m\<close> when it lists every key of
  \<open>m\<close> once.
\<close>

definition rangeOrder :: "wordCounts \<Rightarrow> string list \<Rightarrow> bool" where
  "rangeOrder m keys = (distinct keys \<and> set keys = dom m)"

subsection \<open>Sample inputs\<close>

text \<open>
  Two entries that load, dated at the epoch and two days later, and one that fails to
  load.
\<close>

definition Day :: duration where
  "Day = 24 * Hour"

definition entryA :: result where
  "entryA = \<lparr>wordMap = [''hi'' \<mapsto> 2, ''there'' \<mapsto> 1], date = 0, err = None\<rparr>"

definition entryB :: result where
  "entryB = \<lparr>wordMap = [''hi'' \<mapsto> 1, ''world'' \<mapsto> 1], date = 2 * Day, err = None\<rparr>"

definition entryFailed :: result where
  "entryFailed = \<lparr>wordMap = Map.empty, date = 0, err = Some ''unreadable''\<rparr>"

text \<open>A merged map of three words, one order of its keys, and a reference table.\<close>

definition sampleCounts :: wordCounts where
  "sampleCounts = [''hi'' \<mapsto> 3, ''there'' \<mapsto> 1, ''world'' \<mapsto> 1]"

definition sampleKeys :: "string list" where
  "sampleKeys = [''there'', ''world'', ''hi'']"

definition sampleRef :: refTable where
  "sampleRef = [(''hi'', 1 / 100), (''world'', 1 / 2)]"






text \<open>
  A walk that meets the same base name in two directories: a file, a directory, a file
  with the name of the first, and a file with another name.
\<close>

definition fileA1 :: visit where
  "fileA1 = \<lparr>path = ''/j/a/2024-01-01.md'', name = ''2024-01-01.md'',
              isRegular = True, walkErr = None\<rparr>"

definition dirB :: visit where
  "dirB = \<lparr>path = ''/j/b'', name = ''b'', isRegular = False, walkErr = None\<rparr>"

definition fileB1 :: visit where
  "fileB1 = \<lparr>path = ''/j/b/2024-01-01.md'', name = ''2024-01-01.md'',
              isRegular = True, walkErr = None\<rparr>"

definition fileB3 :: visit where
  "fileB3 = \<lparr>path = ''/j/b/2024-01-03.md'', name = ''2024-01-03.md'',
              isRegular = True, walkErr = None\<rparr>"

section \<open>Properties\<close>

subsection \<open>The loop over the result channel\<close>

lemma receive_ok:
  "\<forall>r \<in> set c. err r = None \<Longrightarrow>
     receive s c = (Inr (fold (\<lambda>r s. accumulate s r) c s), [])"
  by (induction c arbitrary: s) simp_all

lemma receive_first_error:
  "\<forall>p \<in> set pre. err p = None \<Longrightarrow> err r = Some e \<Longrightarrow>
     receive s (pre @ r # post) = (Inl e, post)"
  by (induction pre arbitrary: s) simp_all

lemma receive_Inr:
  "receive s0 c = (Inr s, rest) \<Longrightarrow>
     (\<forall>r \<in> set c. err r = None) \<and> rest = [] \<and> s = fold (\<lambda>r s. accumulate s r) c s0"
  by (induction c arbitrary: s0) (auto split: option.splits)

lemma aggregate_Inr:
  assumes "aggregate t c = Inr s"
  shows "receive (initial t) c = (Inr s, []) \<and> (\<forall>r \<in> set c. err r = None)
     \<and> s = fold (\<lambda>r s. accumulate s r) c (initial t)"
proof -
  obtain x rest where x: "receive (initial t) c = (x, rest)"
    by (cases "receive (initial t) c")
  with assms have "x = Inr s" by (simp add: aggregate_def)
  with x receive_Inr [of "initial t" c s rest] show ?thesis by simp
qed

lemma aggregate_ok:
  "\<forall>r \<in> set c. err r = None \<Longrightarrow>
     aggregate t c = Inr (fold (\<lambda>r s. accumulate s r) c (initial t))"
  by (simp add: aggregate_def receive_ok)

lemma minDate_fold:
  "minDate (fold (\<lambda>r s. accumulate s r) c s) = Min (insert (minDate s) (date ` set c))"
proof (induction c arbitrary: s)
  case Nil
  then show ?case by simp
next
  case (Cons r c)
  have "minDate (accumulate s r) = min (date r) (minDate s)"
    by (simp add: accumulate_def After_def min_def)
  moreover have "Min (insert (min a b) S) = min b (Min (insert a S))"
    if "finite S" for a b :: int and S
    using that by (cases "S = {}") (simp_all add: min.commute min.left_commute)
  ultimately show ?case
    using Cons.IH [of "accumulate s r"] by (simp add: insert_commute)
qed

lemma aggregate_minDate:
  assumes "aggregate t c = Inr s"
  shows "minDate s = Min (insert t (date ` set c))"
  using aggregate_Inr [OF assms] by (simp add: minDate_fold initial_def)


lemma increment_pos: "0 < increment n"
  by (simp add: increment_def)

text \<open>The count is zero exactly when no result was received.\<close>

lemma entryCount_zero_iff:
  "entryCount (fold (\<lambda>r s. accumulate s r) c (initial t)) = 0 \<longleftrightarrow> c = []"
proof (cases c rule: rev_cases)
  case Nil
  then show ?thesis by (simp add: initial_def)
next
  case (snoc c' r)
  then show ?thesis
    using increment_pos [of "entryCount (fold (\<lambda>r s. accumulate s r) c' (initial t))"]
    by (simp add: accumulate_def)
qed

lemma addCounts_commute:
  "addCounts (addCounts m a) b = addCounts (addCounts m b) a"
  by (auto simp: addCounts_def index0_def fun_eq_iff split: option.splits)

lemma accumulate_commute:
  "accumulate (accumulate s a) b = accumulate (accumulate s b) a"
  by (simp add: accumulate_def After_def
      addCounts_commute [of "wordMapAcc s" "wordMap a" "wordMap b"])

lemma fold_accumulate_mset:
  assumes "mset c = mset c'"
  shows "fold (\<lambda>r s. accumulate s r) c = fold (\<lambda>r s. accumulate s r) c'"
  by (rule fold_multiset_equiv [OF _ assms]) (simp add: fun_eq_iff accumulate_commute)

text \<open>
  C3. If some result on the channel carries an error, \<^verbatim>\<open>Run\<close> returns the error of the
  first such result, has read nothing after it (everything behind it is still unread),
  and has printed nothing, however many results without error came before it.
\<close>

theorem Run_first_failure:
  assumes "\<exists>r \<in> set c. err r \<noteq> None"
  shows "\<exists>pre r e post. c = pre @ r # post \<and> (\<forall>p \<in> set pre. err p = None)
           \<and> err r = Some e
           \<and> Run t refFreqs c errc keys
               = \<lparr>stdout = [], status = Returned (Some e), unread = post\<rparr>"
proof -
  from assms obtain pre r post where
    c: "c = pre @ r # post" and r: "err r \<noteq> None"
    and pre: "\<forall>p \<in> set pre. \<not> err p \<noteq> None"
    using split_list_first_prop [of c "\<lambda>r. err r \<noteq> None"] by blast
  from r obtain e where e: "err r = Some e" by blast
  from pre have pre': "\<forall>p \<in> set pre. err p = None" by simp
  have "Run t refFreqs c errc keys
          = \<lparr>stdout = [], status = Returned (Some e), unread = post\<rparr>"
    by (simp add: Run_def c receive_first_error [OF pre' e])
  with c e pre' show ?thesis by blast
qed

theorem Run_first_failure_witness:
  "(\<exists>r \<in> set [entryA, entryFailed, entryB]. err r \<noteq> None)
   \<and> (\<exists>pre r e post. [entryA, entryFailed, entryB] = pre @ r # post
         \<and> (\<forall>p \<in> set pre. err p = None) \<and> err r = Some e
         \<and> Run (9 * Day) [] [entryA, entryFailed, entryB] None [''hi'', ''there'', ''world'']
             = \<lparr>stdout = [], status = Returned (Some e), unread = post\<rparr>)"
proof -
  have h: "\<exists>r \<in> set [entryA, entryFailed, entryB]. err r \<noteq> None"
    by (simp add: entryFailed_def)
  from Run_first_failure [OF h] h show ?thesis by blast
qed

text \<open>
  C5. If no result carries an error and the walker has left an error in \<^verbatim>\<open>errc\<close>, \<^verbatim>\<open>Run\<close>
  reads the channel to its end and returns the walker's error, printing nothing.
\<close>

theorem Run_walker_error:
  assumes "\<forall>r \<in> set c. err r = None"
  shows "Run t refFreqs c (Some e) keys
           = \<lparr>stdout = [], status = Returned (Some e), unread = []\<rparr>"
  by (simp add: Run_def receive_ok [OF assms])

theorem Run_walker_error_witness:
  "err entryA = None \<and> err entryB = None
   \<and> Run (9 * Day) [] [entryA, entryB] (Some ''walk canceled'') [''hi'', ''there'', ''world'']
       = \<lparr>stdout = [], status = Returned (Some ''walk canceled''), unread = []\<rparr>"
proof -
  have h: "\<forall>r \<in> set [entryA, entryB]. err r = None"
    by (simp add: entryA_def entryB_def)
  from Run_walker_error [OF h] h show ?thesis by simp
qed

text \<open>
  C7. Two arrival orders of the same results, none of which carries an error, leave the
  loop with the same locals: the same entry count, the same merged map of word counts
  and the same earliest date.
\<close>

theorem aggregate_order_independent:
  assumes "mset c = mset c'" and "\<forall>r \<in> set c. err r = None"
  shows "\<exists>s. aggregate t c = Inr s \<and> aggregate t c' = Inr s"
proof -
  from assms have ok': "\<forall>r \<in> set c'. err r = None"
    using mset_eq_setD by blast
  show ?thesis
    using aggregate_ok [OF assms(2), of t] aggregate_ok [OF ok', of t]
      fold_accumulate_mset [OF assms(1)]
    by simp
qed

theorem aggregate_order_independent_witness:
  "mset [entryA, entryB] = mset [entryB, entryA]
   \<and> err entryA = None \<and> err entryB = None
   \<and> (\<exists>s. aggregate (9 * Day) [entryA, entryB] = Inr s
          \<and> aggregate (9 * Day) [entryB, entryA] = Inr s)"
proof -
  have h1: "mset [entryA, entryB] = mset [entryB, entryA]"
    by simp
  have h2: "\<forall>r \<in> set [entryA, entryB]. err r = None"
    by (simp add: entryA_def entryB_def)
  from aggregate_order_independent [OF h1 h2] h1 h2 show ?thesis by simp
qed

text \<open>
  C8. If the loop ends without error with an entry count of zero and the walker reports
  no error, \<^verbatim>\<open>Run\<close> skips the report: it prints nothing, divides nothing and returns
  \<^verbatim>\<open>nil\<close>.
\<close>

theorem Run_no_entries:
  assumes "aggregate t c = Inr s" and "entryCount s = 0"
  shows "Run t refFreqs c None keys = \<lparr>stdout = [], status = Returned None, unread = []\<rparr>"
  using aggregate_Inr [OF assms(1)] assms(2) by (simp add: Run_def)

theorem Run_no_entries_witness:
  "aggregate (9 * Day) [] = Inr (initial (9 * Day)) \<and> entryCount (initial (9 * Day)) = 0
   \<and> Run (9 * Day) [(''hi'', 1 / 100)] [] None []
        = \<lparr>stdout = [], status = Returned None, unread = []\<rparr>"
proof -
  have h1: "aggregate (9 * Day) [] = Inr (initial (9 * Day))"
    by (simp add: aggregate_def)
  have h2: "entryCount (initial (9 * Day)) = 0"
    by (simp add: initial_def)
  from Run_no_entries [OF h1 h2] h1 h2 show ?thesis by blast
qed

text \<open>
  C10. The earliest date starts as the time \<^verbatim>\<open>t\<close> read when the loop starts, so at the
  end it is the minimum of \<^verbatim>\<open>t\<close> and the dates of all entries: it is never later than
  \<^verbatim>\<open>t\<close>, and it is never the date of an entry dated after \<^verbatim>\<open>t\<close>.
\<close>

theorem minDate_is_minimum:
  assumes "aggregate t c = Inr s"
  shows "minDate s = Min (insert t (date ` set c)) \<and> minDate s \<le> t
         \<and> (\<forall>r \<in> set c. t < date r \<longrightarrow> minDate s \<noteq> date r)"
proof -
  have m: "minDate s = Min (insert t (date ` set c))"
    by (rule aggregate_minDate [OF assms])
  have le: "minDate s \<le> t" by (simp add: m)
  from le have "\<forall>r \<in> set c. t < date r \<longrightarrow> minDate s \<noteq> date r" by auto
  with m le show ?thesis by simp
qed

theorem minDate_is_minimum_witness:
  "aggregate Day [entryB, entryA] = Inr (accumulate (accumulate (initial Day) entryB) entryA)
   \<and> minDate (accumulate (accumulate (initial Day) entryB) entryA) = 0
   \<and> Min (insert Day (date ` set [entryB, entryA])) = 0
   \<and> Day < date entryB"
proof -
  have h: "aggregate Day [entryB, entryA]
             = Inr (accumulate (accumulate (initial Day) entryB) entryA)"
    by (simp add: aggregate_def entryA_def entryB_def)
  have d: "Min (insert Day (date ` set [entryB, entryA])) = 0"
    by (simp add: entryA_def entryB_def Day_def Hour_def)
  have "Day < date entryB"
    by (simp add: entryB_def Day_def Hour_def)
  with minDate_is_minimum [OF h] h d show ?thesis by simp
qed


subsection \<open>Rounding to the nearest float64\<close>

lemma overflow_pos: "0 < overflow"
  by (simp add: overflow_def)

lemma rne_of_int: "rne (of_int k) = k"
  by (simp add: rne_def)

lemma rne_le: "q \<le> of_int k \<Longrightarrow> rne q \<le> k"
proof -
  assume a: "q \<le> of_int k"
  have f: "of_int \<lfloor>q\<rfloor> \<le> q" "q < of_int \<lfloor>q\<rfloor> + 1" by linarith+
  show ?thesis
  proof (cases "\<lfloor>q\<rfloor> = k")
    case True
    with a f have "q = of_int k" by simp
    then show ?thesis by (simp add: rne_of_int)
  next
    case False
    from a have "\<lfloor>q\<rfloor> \<le> k" by (simp add: floor_le_iff)
    with False have "\<lfloor>q\<rfloor> + 1 \<le> k" by simp
    then show ?thesis by (simp add: rne_def Let_def)
  qed
qed

lemma rne_ge: "of_int k \<le> q \<Longrightarrow> k \<le> rne q"
proof -
  assume "of_int k \<le> q"
  then have "k \<le> \<lfloor>q\<rfloor>" by (simp add: le_floor_iff)
  then show ?thesis by (simp add: rne_def Let_def)
qed

lemma two_powi_le: "i \<le> j \<Longrightarrow> (2::rat) powi i \<le> 2 powi j"
  by (rule power_int_increasing) simp_all

lemma two_powi_less: "i < j \<Longrightarrow> (2::rat) powi i < 2 powi j"
  by (rule power_int_strict_increasing) simp_all

lemma two_powi_less_imp: "(2::rat) powi i \<le> a \<Longrightarrow> a < 2 powi j \<Longrightarrow> i < j"
  using two_powi_le [of j i] by (cases "i < j") auto

lemma two_powi_ratio:
  assumes "i \<le> j"
  shows "(2::rat) powi j / 2 powi i = of_int (2 ^ nat (j - i))"
proof -
  have "(2::rat) powi j / 2 powi i = 2 powi (j - i)"
    by (simp add: power_int_diff)
  also have "\<dots> = 2 powi int (nat (j - i))"
    using assms by simp
  also have "\<dots> = of_int (2 ^ nat (j - i))"
    by (simp only: power_int_of_nat) simp
  finally show ?thesis .
qed

lemma binade_range: "- 1022 \<le> binade k a \<and> binade k a \<le> int k - 1022"
  by (induction k) auto

lemma binade_le: "2 powi (- 1022) \<le> a \<Longrightarrow> 2 powi (binade k a) \<le> a"
  by (induction k) auto

lemma binade_gt: "a < 2 powi (int k - 1021) \<Longrightarrow> a < 2 powi (binade k a + 1)"
proof (induction k)
  case 0
  then show ?case by simp
next
  case (Suc k)
  show ?case
  proof (cases "2 powi (int (Suc k) - 1022) \<le> a")
    case True
    with Suc.prems show ?thesis by (simp add: algebra_simps)
  next
    case False
    then have "a < 2 powi (int k - 1021)" by (simp add: algebra_simps)
    with False Suc.IH show ?thesis by simp
  qed
qed

lemma binade_upper: "a < 2 powi (E + 1) \<Longrightarrow> - 1022 \<le> E \<Longrightarrow> binade k a \<le> E"
proof (induction k)
  case 0
  then show ?case by simp
next
  case (Suc k)
  show ?case
  proof (cases "2 powi (int (Suc k) - 1022) \<le> a")
    case True
    from two_powi_less_imp [OF True Suc.prems(1)] True show ?thesis by simp
  next
    case False
    with Suc show ?thesis by simp
  qed
qed

lemma binade_lower: "2 powi E \<le> a \<Longrightarrow> E \<le> int k - 1022 \<Longrightarrow> E \<le> binade k a"
proof (induction k)
  case 0
  then show ?case by simp
next
  case (Suc k)
  show ?case
  proof (cases "2 powi (int (Suc k) - 1022) \<le> a")
    case True
    with Suc.prems show ?thesis by simp
  next
    case False
    with Suc.prems(1) have "E < int (Suc k) - 1022"
      using two_powi_less_imp [of E a "int (Suc k) - 1022"] by simp
    with False Suc show ?thesis by simp
  qed
qed

lemma exponent_range: "- 1022 \<le> exponent a \<and> exponent a \<le> 1024"
  using binade_range [of 2046 a] by (simp add: exponent_def)

lemma exponent_le: "a < 2 powi (E + 1) \<Longrightarrow> - 1022 \<le> E \<Longrightarrow> exponent a \<le> E"
  by (simp add: exponent_def binade_upper)

lemma exponent_ge: "2 powi E \<le> a \<Longrightarrow> E \<le> 1024 \<Longrightarrow> E \<le> exponent a"
  by (simp add: exponent_def binade_lower)

lemma exponent_eq:
  assumes "2 powi e \<le> a \<or> e = - 1022" and "a < 2 powi (e + 1)" and "- 1022 \<le> e" and "e \<le> 1024"
  shows "exponent a = e"
proof -
  have "exponent a \<le> e" using assms(2,3) by (rule exponent_le)
  moreover have "e \<le> exponent a"
    using assms(1,4) exponent_range [of a] by (auto intro: exponent_ge)
  ultimately show ?thesis by simp
qed

lemma two_powi_exponent_le: "2 powi (- 1022) \<le> a \<Longrightarrow> 2 powi (exponent a) \<le> a"
  by (simp add: exponent_def binade_le)

text \<open>The value of \<open>round64\<close> at a number that is not negative.\<close>

lemma round64_nonneg:
  assumes "0 \<le> x"
  shows "round64 x =
    (if overflow \<le> of_int (rne (x / 2 powi (exponent x - 52))) * 2 powi (exponent x - 52)
     then PInf
     else Fin (of_int (rne (x / 2 powi (exponent x - 52))) * 2 powi (exponent x - 52)))"
proof (cases "x = 0")
  case True
  then show ?thesis using overflow_pos by (simp add: round64_def rne_def)
next
  case False
  with assms have "0 < x" by simp
  then show ?thesis by (simp add: round64_def Let_def)
qed

lemma overflow_not_le: "\<not> overflow \<le> 0"
  by (simp add: overflow_def)

lemma round64_minus: "round64 (- x) = fneg (round64 x)"
  by (cases "x = 0") (auto simp: round64_def Let_def rne_def overflow_not_le)

text \<open>Rounding does not cross a number of the grid of the argument, or of a coarser one.\<close>

lemma round64_le:
  assumes "0 \<le> x" and "x \<le> c" and "c = of_int k * 2 powi j" and "exponent x - 52 \<le> j"
    and "c < overflow"
  shows "\<exists>v. round64 x = Fin v \<and> 0 \<le> v \<and> v \<le> c"
proof -
  define u :: rat where "u = 2 powi (exponent x - 52)"
  have u: "0 < u" by (simp add: u_def)
  have "c / u = of_int k * (2 powi j / 2 powi (exponent x - 52))"
    by (simp add: assms(3) u_def)
  also have "\<dots> = of_int (k * 2 ^ nat (j - (exponent x - 52)))"
    by (simp only: two_powi_ratio [OF assms(4)] of_int_mult)
  finally have c: "c / u = of_int (k * 2 ^ nat (j - (exponent x - 52)))" .
  have "x / u \<le> c / u"
    using assms(2) u by (simp add: divide_right_mono)
  then have "rne (x / u) \<le> k * 2 ^ nat (j - (exponent x - 52))"
    unfolding c by (rule rne_le)
  then have "(of_int (rne (x / u)) :: rat) \<le> of_int (k * 2 ^ nat (j - (exponent x - 52)))"
    by (simp only: of_int_le_iff)
  then have "of_int (rne (x / u)) \<le> c / u"
    by (simp only: c)
  then have le: "of_int (rne (x / u)) * u \<le> c"
    using u by (simp add: pos_le_divide_eq)
  have "(0::rat) \<le> x / u" using assms(1) u by simp
  then have "0 \<le> rne (x / u)"
    using rne_ge [of 0 "x / u"] by simp
  then have ge: "0 \<le> of_int (rne (x / u)) * u"
    using u by simp
  from le assms(5) have "\<not> overflow \<le> of_int (rne (x / u)) * u" by simp
  then have "round64 x = Fin (of_int (rne (x / u)) * u)"
    by (simp add: round64_nonneg [OF assms(1)] u_def)
  with le ge show ?thesis by simp
qed

lemma round64_ge:
  assumes "0 \<le> c" and "c \<le> x" and "c = of_int k * 2 powi j" and "exponent x - 52 \<le> j"
  shows "round64 x = PInf \<or> (\<exists>v. round64 x = Fin v \<and> c \<le> v)"
proof -
  define u :: rat where "u = 2 powi (exponent x - 52)"
  have u: "0 < u" by (simp add: u_def)
  have x: "0 \<le> x" using assms(1,2) by simp
  have "c / u = of_int k * (2 powi j / 2 powi (exponent x - 52))"
    by (simp add: assms(3) u_def)
  also have "\<dots> = of_int (k * 2 ^ nat (j - (exponent x - 52)))"
    by (simp only: two_powi_ratio [OF assms(4)] of_int_mult)
  finally have c: "c / u = of_int (k * 2 ^ nat (j - (exponent x - 52)))" .
  have "c / u \<le> x / u"
    using assms(2) u by (simp add: divide_right_mono)
  then have "k * 2 ^ nat (j - (exponent x - 52)) \<le> rne (x / u)"
    unfolding c by (rule rne_ge)
  then have "(of_int (k * 2 ^ nat (j - (exponent x - 52))) :: rat) \<le> of_int (rne (x / u))"
    by (simp only: of_int_le_iff)
  then have "c / u \<le> of_int (rne (x / u))"
    by (simp only: c)
  then have "c \<le> of_int (rne (x / u)) * u"
    using u by (simp add: pos_divide_le_eq)
  then show ?thesis
    by (simp add: round64_nonneg [OF x] u_def)
qed

text \<open>A number of the grid of its own binade, below the largest value, is not changed.\<close>

lemma round64_exact:
  assumes "0 \<le> x" and "x = of_int k * 2 powi j" and "exponent x - 52 \<le> j" and "x < overflow"
  shows "round64 x = Fin x"
proof -
  from round64_le [OF assms(1) order_refl assms(2,3,4)]
  obtain v where v: "round64 x = Fin v" "v \<le> x" by blast
  from round64_ge [OF assms(1) order_refl assms(2,3)] v(1) have "x \<le> v" by simp
  with v show ?thesis by simp
qed

lemma round64_of_nat:
  assumes "n < 2 ^ 53"
  shows "round64 (of_nat n) = Fin (of_nat n)"
proof (rule round64_exact [where k = "int n" and j = 0])
  show "(0::rat) \<le> of_nat n" by simp
  show "(of_nat n :: rat) = of_int (int n) * 2 powi 0" by simp
  have less: "(of_nat n :: rat) < of_nat (2 ^ 53)"
    using assms by (simp only: of_nat_less_iff)
  then have "(of_nat n :: rat) < 2 powi (52 + 1)" by simp
  then have "exponent (of_nat n) \<le> 52" by (rule exponent_le) simp
  then show "exponent (of_nat n) - 52 \<le> 0" by simp
  have "(2::rat) ^ 53 < 2 ^ 1024" by (rule power_strict_increasing) simp_all
  with less show "(of_nat n :: rat) < overflow"
    by (simp add: overflow_def)
qed

lemma round64_numeral:
  "numeral k < (2::nat) ^ 53 \<Longrightarrow> round64 (numeral k) = Fin (numeral k)"
  using round64_of_nat [of "numeral k"] by simp

lemma round64_0: "round64 0 = Fin 0"
  using round64_of_nat [of 0] by simp

lemma round64_1: "round64 1 = Fin 1"
  using round64_of_nat [of 1] by simp

lemma round64_of_int:
  assumes "0 \<le> n" and "n < 2 ^ 53"
  shows "round64 (of_int n) = Fin (of_int n)"
proof -
  from assms have "nat n < 2 ^ 53"
    by (simp add: nat_less_iff)
  from round64_of_nat [OF this] assms(1) show ?thesis by simp
qed

lemma round64_not_NaN: "round64 x \<noteq> NaN"
  by (simp add: round64_def Let_def)

text \<open>
  The forms in which the bounds are used: the grid of \<open>c\<close> is given by \<open>j\<close>, and \<open>x\<close> lies
  below \<open>2 powi (j + 53)\<close>, so the grid of \<open>x\<close> is at least as fine.
\<close>

lemma round64_upper:
  assumes "0 \<le> x" and "x \<le> of_int k * 2 powi j" and "x < 2 powi (j + 53)" and "- 1074 \<le> j"
    and "of_int k * 2 powi j < overflow"
  shows "\<exists>v. round64 x = Fin v \<and> 0 \<le> v \<and> v \<le> of_int k * 2 powi j"
proof -
  have "x < 2 powi ((j + 52) + 1)"
    using assms(3) by (simp add: algebra_simps)
  then have "exponent x \<le> j + 52"
    using assms(4) by (intro exponent_le) simp_all
  then have "exponent x - 52 \<le> j" by simp
  from round64_le [OF assms(1,2) refl this assms(5)] show ?thesis .
qed

text \<open>In the range of the normal numbers the result is at least the power of two below.\<close>

lemma round64_lower:
  assumes "2 powi (- 1022) \<le> x"
  shows "round64 x = PInf \<or> (\<exists>v. round64 x = Fin v \<and> 2 powi (exponent x) \<le> v)"
proof (rule round64_ge [where k = 1])
  show "(0::rat) \<le> 2 powi (exponent x)" by simp
  show "2 powi (exponent x) \<le> x" using assms by (rule two_powi_exponent_le)
  show "(2::rat) powi (exponent x) = of_int 1 * 2 powi (exponent x)" by simp
  show "exponent x - 52 \<le> exponent x" by simp
qed

lemma two_powi_exponent_gt:
  assumes "exponent a < 1024"
  shows "a < 2 powi (exponent a + 1)"
proof -
  have "a < 2 powi 1024"
  proof (rule ccontr)
    assume "\<not> a < 2 powi 1024"
    then have "2 powi 1024 \<le> a" by simp
    then have "1024 \<le> exponent a" by (rule exponent_ge) simp
    with assms show False by simp
  qed
  also have "(2::rat) powi 1024 \<le> 2 powi (int 2046 - 1021)"
    by (rule two_powi_le) simp
  finally have "a < 2 powi (binade 2046 a + 1)"
    by (rule binade_gt)
  then show ?thesis by (simp add: exponent_def)
qed

text \<open>A value that \<open>round64\<close> returns is a \<^verbatim>\<open>float64\<close>: rounding it again changes nothing.\<close>

lemma round64_idem_nonneg:
  assumes "0 \<le> x" and "round64 x = Fin v"
  shows "round64 v = Fin v"
proof -
  define e where "e = exponent x"
  define n where "n = rne (x / 2 powi (e - 52))"
  have u: "(0::rat) < 2 powi (e - 52)" by simp
  from assms have v: "v = of_int n * 2 powi (e - 52)" and small: "v < overflow"
    by (auto simp: round64_nonneg e_def n_def split: if_splits)
  have "(0::rat) \<le> x / 2 powi (e - 52)" using assms(1) by simp
  then have "0 \<le> n" unfolding n_def using rne_ge [of 0 "x / 2 powi (e - 52)"] by simp
  then have v0: "0 \<le> v" by (simp add: v)
  have range: "- 1022 \<le> e" "e \<le> 1024"
    using exponent_range [of x] by (simp_all add: e_def)
  show ?thesis
  proof (cases "v < 2 powi (e + 1)")
    case True
    then have "exponent v \<le> e" using range(1) by (rule exponent_le)
    then have "exponent v - 52 \<le> e - 52" by simp
    from round64_exact [OF v0 v this small] show ?thesis .
  next
    case False
    have e: "e < 1024"
    proof (rule ccontr)
      assume "\<not> e < 1024"
      with range have "e = 1024" by simp
      with False have "2 powi 1025 \<le> v" by simp
      moreover have "overflow \<le> 2 powi 1025" by (simp add: overflow_def)
      ultimately show False using small by simp
    qed
    then have "x < 2 powi (e + 1)"
      unfolding e_def by (rule two_powi_exponent_gt)
    then have "x / 2 powi (e - 52) < 2 powi (e + 1) / 2 powi (e - 52)"
      using u by (simp add: divide_strict_right_mono)
    also have "(2::rat) powi (e + 1) / 2 powi (e - 52) = of_int (2 ^ nat (e + 1 - (e - 52)))"
      by (rule two_powi_ratio) simp
    finally have "n \<le> 2 ^ nat (e + 1 - (e - 52))"
      unfolding n_def by (intro rne_le) simp
    then have "(of_int n :: rat) \<le> of_int (2 ^ nat (e + 1 - (e - 52)))"
      by (simp only: of_int_le_iff)
    also have "(of_int (2 ^ nat (e + 1 - (e - 52))) :: rat) = 2 powi (e + 1) / 2 powi (e - 52)"
      by (rule two_powi_ratio [symmetric]) simp
    finally have "v \<le> 2 powi (e + 1)"
      using u by (simp add: v pos_le_divide_eq)
    with False have top: "v = of_int 1 * 2 powi (e + 1)" by simp
    have "v < 2 powi ((e + 53) + 1)"
      unfolding top using two_powi_less [of "e + 1" "e + 54"] by (simp add: algebra_simps)
    then have "exponent v \<le> e + 53" using range(1) by (intro exponent_le) simp_all
    then have "exponent v - 52 \<le> e + 1" by simp
    from round64_exact [OF v0 top this small] show ?thesis .
  qed
qed

lemma round64_idem:
  assumes "round64 x = Fin v"
  shows "round64 v = Fin v"
proof (cases "0 \<le> x")
  case True
  then show ?thesis using assms by (rule round64_idem_nonneg)
next
  case False
  then have x: "0 \<le> - x" by simp
  from assms have "round64 (- x) = Fin (- v)"
    by (simp add: round64_minus)
  from round64_idem_nonneg [OF x this] have "fneg (round64 v) = Fin (- v)"
    by (simp add: round64_minus)
  then show ?thesis by (cases "round64 v") simp_all
qed

text \<open>The value of \<open>round64\<close> at a number whose binade is known.\<close>

lemma round64_at:
  assumes "0 \<le> x" and "2 powi e \<le> x \<or> e = - 1022" and "x < 2 powi (e + 1)"
    and "- 1022 \<le> e" and "e \<le> 1024"
  shows "round64 x =
    (if overflow \<le> of_int (rne (x / 2 powi (e - 52))) * 2 powi (e - 52) then PInf
     else Fin (of_int (rne (x / 2 powi (e - 52))) * 2 powi (e - 52)))"
  by (simp only: round64_nonneg [OF assms(1)] exponent_eq [OF assms(2-5)])

text \<open>
  For a number given in figures: the integer nearest to its quotient by the spacing of its
  binade decides the result.
\<close>

lemma rne_eqI:
  assumes "of_int n - 1 / 2 < q" and "q < of_int n + 1 / 2"
  shows "rne q = n"
proof (cases "q < of_int n")
  case True
  with assms(1) have "\<lfloor>q\<rfloor> = n - 1"
    by (intro floor_unique) simp_all
  with assms(1) show ?thesis
    by (simp add: rne_def Let_def)
next
  case False
  with assms(2) have "\<lfloor>q\<rfloor> = n"
    by (intro floor_unique) simp_all
  with assms(2) show ?thesis
    by (simp add: rne_def Let_def)
qed

lemma round64_eval:
  assumes "0 \<le> x" and "2 powi e \<le> x" and "x < 2 powi (e + 1)" and "- 1022 \<le> e" and "e \<le> 1024"
    and "of_int n - 1 / 2 < x / 2 powi (e - 52)" and "x / 2 powi (e - 52) < of_int n + 1 / 2"
    and "of_int n * 2 powi (e - 52) < overflow"
  shows "round64 x = Fin (of_int n * 2 powi (e - 52))"
proof -
  have "rne (x / 2 powi (e - 52)) = n"
    using assms(6,7) by (rule rne_eqI)
  with assms(8) show ?thesis
    using round64_at [of x e] assms(1-5) by simp
qed

text \<open>The quotients and products of the sample runs.\<close>

lemma round64_two_ninths: "round64 (2 / 9) = Fin (2001599834386887 / 9007199254740992)"
  using round64_eval [where x = "2 / 9" and e = "- 3" and n = 8006399337547548]
  by (simp add: overflow_def)

lemma round64_percent_day_9:
  "round64 (50039995859672175 / 2251799813685248) = Fin (3127499741229511 / 140737488355328)"
  using round64_eval [where x = "50039995859672175 / 2251799813685248" and e = 4
      and n = 6254999482459022]
  by (simp add: overflow_def)

lemma round64_one_fifth: "round64 (1 / 5) = Fin (3602879701896397 / 18014398509481984)"
  using round64_eval [where x = "1 / 5" and e = "- 3" and n = 7205759403792794]
  by (simp add: overflow_def)


lemma round64_five_halves: "round64 (5 / 2) = Fin (5 / 2)"
  using round64_eval [where x = "5 / 2" and e = 1 and n = 5629499534213120]
  by (simp add: overflow_def)

subsection \<open>The percentage\<close>

lemma Sub_in_range: "minDuration \<le> t - u \<Longrightarrow> t - u \<le> maxDuration \<Longrightarrow> Sub t u = t - u"
  by (simp add: Sub_def)

text \<open>
  A duration \<open>d\<close> from 0 to less than 24 hours. The whole hours and the nanoseconds left
  are exact; their quotient, the sum and the days are rounded, and each stays at or below
  a \<^verbatim>\<open>float64\<close> that lies between the exact value and the next whole number.
\<close>

lemma Hours_within_a_day:
  assumes "0 \<le> d" and "d < 24 * Hour"
  shows "\<exists>v. Hours d = Fin v \<and> 0 \<le> v \<and> v \<le> of_int (24 * 2 ^ 42 - 1) * 2 powi (- 42)"
proof -
  define hour where "hour = d sdiv Hour"
  define nsec where "nsec = d smod Hour"
  have hm: "hour = d div Hour" "nsec = d mod Hour"
    using assms(1) by (simp_all add: hour_def nsec_def signed_divide_int_def
        signed_modulo_int_def Hour_def sgn_if)
  have hour: "0 \<le> hour" "hour \<le> 23"
    using assms unfolding hm Hour_def by arith+
  have nsec: "0 \<le> nsec" "nsec \<le> 3600000000000 - 1"
    unfolding hm Hour_def by arith+
  have fh: "float64_of_int hour = Fin (of_int hour)"
    unfolding float64_of_int_def using hour by (intro round64_of_int) simp_all
  have fn: "float64_of_int nsec = Fin (of_int nsec)"
    unfolding float64_of_int_def using nsec by (intro round64_of_int) simp_all
  define x1 :: rat where "x1 = of_int nsec / 3600000000000"
  have "(of_int nsec :: rat) \<le> of_int (3600000000000 - 1)"
    using nsec(2) by (simp only: of_int_le_iff)
  then have x1: "0 \<le> x1" "x1 \<le> 3599999999999 / 3600000000000"
    using nsec(1) by (simp_all add: x1_def divide_right_mono)
  have "\<exists>v. round64 x1 = Fin v \<and> 0 \<le> v \<and> v \<le> of_int (2 ^ 42 - 1) * 2 powi (- 42)"
    using x1 by (intro round64_upper) (simp_all add: overflow_def)
  then obtain v1 where v1: "round64 x1 = Fin v1" "0 \<le> v1"
    "v1 \<le> of_int (2 ^ 42 - 1) * 2 powi (- 42)"
    by blast
  define x2 :: rat where "x2 = of_int hour + v1"
  have "(of_int hour :: rat) \<le> of_int 23" "(0::rat) \<le> of_int hour"
    using hour by (simp_all only: of_int_le_iff of_int_0_le_iff)
  with v1 have x2: "0 \<le> x2" "x2 \<le> of_int (24 * 2 ^ 42 - 1) * 2 powi (- 42)"
    by (simp_all add: x2_def)
  have "\<exists>v. round64 x2 = Fin v \<and> 0 \<le> v \<and> v \<le> of_int (24 * 2 ^ 42 - 1) * 2 powi (- 42)"
    using x2 by (intro round64_upper) (simp_all add: overflow_def)
  moreover have "Hours d = round64 x2"
    by (simp add: Hours_def Let_def fh fn v1(1) [unfolded x1_def] x2_def
        flip: hour_def nsec_def)
  ultimately show ?thesis by simp
qed

lemma percentDivisor_within_a_day:
  assumes "d \<le> t" and "t - d < 24 * Hour"
  shows "percentDivisor t d = Fin 0"
proof -
  have sub: "Sub t d = t - d"
    using assms by (intro Sub_in_range) (simp_all add: minDuration_def maxDuration_def Hour_def)
  from assms have "0 \<le> t - d" by simp
  from Hours_within_a_day [OF this assms(2)] obtain v where
    v: "Hours (t - d) = Fin v" "0 \<le> v" "v \<le> of_int (24 * 2 ^ 42 - 1) * 2 powi (- 42)"
    by blast
  have "\<exists>w. round64 (v / 24) = Fin w \<and> 0 \<le> w \<and> w \<le> of_int (2 ^ 47 - 1) * 2 powi (- 47)"
    using v(2,3) by (intro round64_upper) (simp_all add: overflow_def)
  then obtain w where w: "round64 (v / 24) = Fin w" "0 \<le> w"
    "w \<le> of_int (2 ^ 47 - 1) * 2 powi (- 47)"
    by blast
  from w(3) have "w < 1" by simp
  with w(2) have "\<lfloor>w\<rfloor> = 0" by (simp add: floor_eq_iff)
  then show ?thesis
    by (simp add: percentDivisor_def sub v(1) w(1))
qed

lemma stdout_Run_report:
  assumes "aggregate t c = Inr s" and "0 < entryCount s"
  shows "stdout (Run t refFreqs c None keys) = fst (report t refFreqs s keys)"
    and "status (Run t refFreqs c None keys) = snd (report t refFreqs s keys)"
  using aggregate_Inr [OF assms(1)] assms(2) by (simp_all add: Run_def split: prod.splits)

lemma hd_report:
  "hd (fst (report t refFreqs s keys)) = PercentLine (fmul (percent t s) (Fin 100)) (minDate s)"
  by (simp add: report_def Let_def split: prod.splits)

text \<open>
  C9. With at least one entry and an earliest date less than 24 hours before the time
  \<^verbatim>\<open>t\<close> of the run, the divisor \<^verbatim>\<open>math.Floor(t.Sub(minDate).Hours()/24)\<close> is 0, nothing
  guards the division, and the percentage that \<^verbatim>\<open>Run\<close> computes and prints first is
  \<open>+Inf\<close>, not a finite number.
\<close>

theorem percent_infinite_within_a_day:
  assumes "aggregate t c = Inr s" and "0 < entryCount s" and "t - minDate s < 24 * Hour"
  shows "percentDivisor t (minDate s) = Fin 0 \<and> percent t s = PInf
         \<and> \<not> finite64 (percent t s)
         \<and> hd (stdout (Run t refFreqs c None keys)) = PercentLine PInf (minDate s)"
proof -
  have "minDate s \<le> t"
    by (simp add: aggregate_minDate [OF assms(1)])
  then have d: "percentDivisor t (minDate s) = Fin 0"
    using assms(3) by (rule percentDivisor_within_a_day)
  have p: "percent t s = PInf"
    using assms(2) by (simp add: percent_def d)
  have "hd (stdout (Run t refFreqs c None keys)) = PercentLine PInf (minDate s)"
    by (simp add: stdout_Run_report(1) [OF assms(1,2)] hd_report p)
  with d p show ?thesis by (simp add: finite64_def)
qed

theorem percent_infinite_within_a_day_witness:
  "aggregate Hour [entryA] = Inr (accumulate (initial Hour) entryA)
   \<and> entryCount (accumulate (initial Hour) entryA) = 1
   \<and> minDate (accumulate (initial Hour) entryA) = 0
   \<and> percent Hour (accumulate (initial Hour) entryA) = PInf
   \<and> hd (stdout (Run Hour [] [entryA] None [''hi'', ''there''])) = PercentLine PInf 0"
proof -
  have h1: "aggregate Hour [entryA] = Inr (accumulate (initial Hour) entryA)"
    by (simp add: aggregate_def entryA_def)
  have n: "entryCount (accumulate (initial Hour) entryA) = 1"
    by (simp add: accumulate_def initial_def increment_def)
  have m: "minDate (accumulate (initial Hour) entryA) = 0"
    by (simp add: accumulate_def initial_def After_def entryA_def Hour_def)
  have h2: "0 < entryCount (accumulate (initial Hour) entryA)"
    by (simp add: n)
  have h3: "Hour - minDate (accumulate (initial Hour) entryA) < 24 * Hour"
    unfolding m by (simp add: Hour_def)
  from percent_infinite_within_a_day [OF h1 h2 h3, of "[]" "[''hi'', ''there'']"] h1 n m
  show ?thesis by simp
qed

subsection \<open>The ranked lists\<close>

lemma mset_shift: "mset (shift lt x ys) = add_mset x (mset ys)"
  by (induction ys) simp_all

lemma mset_fold_shift: "mset (fold (shift lt) xs acc) = mset xs + mset acc"
  by (induction xs arbitrary: acc) (simp_all add: mset_shift)

lemma mset_sortSlice: "mset (sortSlice lt xs) = mset xs"
  by (simp add: sortSlice_def mset_fold_shift)

lemma length_sortSlice: "length (sortSlice lt xs) = length xs"
  using mset_sortSlice [of lt xs] by (metis size_mset)

lemma length_ranked: "length (ranked refFreqs wordCount m keys) = length keys"
  by (simp add: ranked_def length_sortSlice wordStats_def)

text \<open>
  With fewer than 100 words in the merged map and a reference table that is not empty,
  the report panics at the first slice expression.
\<close>

lemma report_short:
  assumes "refFreqs \<noteq> []" and "length keys < topUnusualWordCount"
  shows "snd (report t refFreqs s keys) = Panicked ''slice bounds out of range''"
  using assms by (simp add: report_def lists_def length_ranked Let_def)

lemma Run_short:
  assumes "aggregate t c = Inr s" and "0 < entryCount s"
    and "refFreqs \<noteq> []" and "length keys < topUnusualWordCount"
  shows "status (Run t refFreqs c None keys) = Panicked ''slice bounds out of range''"
  by (simp add: stdout_Run_report(2) [OF assms(1,2)] report_short [OF assms(3,4)])


text \<open>
  C1. Two entries with three distinct words between them and a reference table with one
  word: \<^verbatim>\<open>Run\<close> prints the scalar statistics (the percentage is the \<^verbatim>\<open>float64\<close> that prints
  as 22.22) and the first header, and then panics; the slice is not capped at the number
  of words.
\<close>

theorem Run_panics_below_100_words:
  "Run (9 * Day) [(''hi'', 1 / 100)] [entryA, entryB] None [''hi'', ''there'', ''world'']
     = \<lparr>stdout = [PercentLine (Fin (3127499741229511 / 140737488355328)) 0, TotalLine 5,
                  AverageLine (Fin (5 / 2)), BlankLine, FrequentHeader 100],
        status = Panicked ''slice bounds out of range'', unread = []\<rparr>"
  by (simp add: Run_def entryA_def entryB_def Day_def initial_def accumulate_def increment_def
      addCounts_def index0_def After_def report_def percent_def percentDivisor_def Sub_def
      minDuration_def maxDuration_def Hours_def Hour_def float64_of_uint64_def
      float64_of_int_def sumCounts_def signed_divide_int_def signed_modulo_int_def
      round64_numeral round64_0 round64_two_ninths round64_percent_day_9 round64_five_halves
      lists_def length_ranked topUnusualWordCount_def)

subsection \<open>The walk\<close>

text \<open>The five ways through one call of the callback.\<close>

lemma walkFn_err:
  "walkErr x = Some e \<Longrightarrow> walkFn IsEntry sends visited (x # vs) = ([], Some e)"
  by simp

lemma walkFn_pass:
  "walkErr x = None \<Longrightarrow> \<not> isRegular x \<or> visited (name x) \<or> \<not> IsEntry (path x) \<Longrightarrow>
     walkFn IsEntry sends visited (x # vs) = walkFn IsEntry sends visited vs"
  by auto

lemma walkFn_cancel:
  "walkErr x = None \<Longrightarrow> isRegular x \<Longrightarrow> \<not> visited (name x) \<Longrightarrow> IsEntry (path x) \<Longrightarrow>
     walkFn IsEntry (Some 0) visited (x # vs) = ([], Some ''walk canceled'')"
  by simp

lemma walkFn_send_Some:
  "walkErr x = None \<Longrightarrow> isRegular x \<Longrightarrow> \<not> visited (name x) \<Longrightarrow> IsEntry (path x) \<Longrightarrow>
     walkFn IsEntry (Some (Suc k)) visited (x # vs)
       = (x # fst (walkFn IsEntry (Some k) (visited(name x := True)) vs),
          snd (walkFn IsEntry (Some k) (visited(name x := True)) vs))"
  by (simp split: prod.splits)

lemma walkFn_send_None:
  "walkErr x = None \<Longrightarrow> isRegular x \<Longrightarrow> \<not> visited (name x) \<Longrightarrow> IsEntry (path x) \<Longrightarrow>
     walkFn IsEntry None visited (x # vs)
       = (x # fst (walkFn IsEntry None (visited(name x := True)) vs),
          snd (walkFn IsEntry None (visited(name x := True)) vs))"
  by (simp split: prod.splits)

lemma walkFn_cases:
  fixes x :: visit and visited :: "string \<Rightarrow> bool" and IsEntry :: "string \<Rightarrow> bool"
    and sends :: "nat option"
  obtains (err) e where "walkErr x = Some e"
  | (pass) "walkErr x = None" "\<not> isRegular x \<or> visited (name x) \<or> \<not> IsEntry (path x)"
  | (cancel) "walkErr x = None" "isRegular x" "\<not> visited (name x)" "IsEntry (path x)"
      "sends = Some 0"
  | (send) k k' where "walkErr x = None" "isRegular x" "\<not> visited (name x)" "IsEntry (path x)"
      "sends = None \<and> k' = None \<or> sends = Some (Suc k) \<and> k' = Some k"
proof (cases "walkErr x")
  case (Some e)
  then show ?thesis by (rule err)
next
  case None
  show ?thesis
  proof (cases "\<not> isRegular x \<or> visited (name x) \<or> \<not> IsEntry (path x)")
    case True
    with None show ?thesis by (rule pass)
  next
    case False
    show ?thesis
    proof (cases sends)
      case None
      with \<open>walkErr x = None\<close> False show ?thesis
        by (intro send [where k = 0 and k' = None]) auto
    next
      case (Some n)
      with \<open>walkErr x = None\<close> False show ?thesis
        by (cases n) (auto intro: cancel send)
    qed
  qed
qed

lemma walkFn_send:
  assumes "walkErr x = None" "isRegular x" "\<not> visited (name x)" "IsEntry (path x)"
    and "sends = None \<and> k' = None \<or> sends = Some (Suc k) \<and> k' = Some k"
  shows "walkFn IsEntry sends visited (x # vs)
       = (x # fst (walkFn IsEntry k' (visited(name x := True)) vs),
          snd (walkFn IsEntry k' (visited(name x := True)) vs))"
  using assms(5)
    walkFn_send_None [where visited = visited and IsEntry = IsEntry, OF assms(1-4)]
    walkFn_send_Some [where visited = visited and IsEntry = IsEntry, OF assms(1-4)]
  by (auto simp del: walkFn.simps)

text \<open>No base name is sent twice, and none that was already marked.\<close>

lemma walkFn_sent:
  "walkFn IsEntry sends visited vs = (sent, e) \<Longrightarrow>
     distinct (map name sent) \<and> (\<forall>v \<in> set sent. \<not> visited (name v))"
proof (induction vs arbitrary: sends visited sent e)
  case Nil
  then show ?case by simp
next
  case (Cons x vs)
  show ?case
  proof (cases rule: walkFn_cases [where x = x and visited = visited and IsEntry = IsEntry and sends = sends])
    case (err e')
    from Cons.prems show ?thesis
      unfolding walkFn_err [OF err] by simp
  next
    case pass
    from Cons.prems have "walkFn IsEntry sends visited vs = (sent, e)"
      unfolding walkFn_pass [where visited = visited and IsEntry = IsEntry, OF pass] .
    then show ?thesis by (rule Cons.IH)
  next
    case cancel
    from Cons.prems show ?thesis
      unfolding cancel(5) walkFn_cancel [where visited = visited and IsEntry = IsEntry, OF cancel(1-4)] by simp
  next
    case (send k k')
    obtain sent' e' where
      rec: "walkFn IsEntry k' (visited(name x := True)) vs = (sent', e')"
      by (cases "walkFn IsEntry k' (visited(name x := True)) vs")
    from Cons.prems have "sent = x # sent'"
      unfolding walkFn_send [where visited = visited and IsEntry = IsEntry, OF send] rec by simp
    moreover from Cons.IH [OF rec] have "distinct (map name sent')"
      and "\<forall>v \<in> set sent'. name v \<noteq> name x \<and> \<not> visited (name v)"
      by (auto split: if_splits)
    ultimately show ?thesis
      using send(3) by auto
  qed
qed

text \<open>
  A visit without error whose base name is marked, or follows a regular entry file of
  that name, changes nothing: the walk goes as if the visit were not there.
\<close>

lemma walkFn_skip:
  "walkErr v = None \<Longrightarrow>
   visited (name v) \<or> (\<exists>u \<in> set pre. isRegular u \<and> IsEntry (path u) \<and> name u = name v) \<Longrightarrow>
   walkFn IsEntry sends visited (pre @ v # post) = walkFn IsEntry sends visited (pre @ post)"
proof (induction pre arbitrary: sends visited)
  case Nil
  then show ?case by (simp add: walkFn_pass)
next
  case (Cons x pre)
  show ?case
  proof (cases rule: walkFn_cases [where x = x and visited = visited and IsEntry = IsEntry and sends = sends])
    case (err e')
    then show ?thesis by (simp only: append_Cons walkFn_err)
  next
    case pass
    then have "visited (name v)
        \<or> (\<exists>u \<in> set pre. isRegular u \<and> IsEntry (path u) \<and> name u = name v)"
      using Cons.prems(2) by auto
    from Cons.IH [where visited = visited, OF Cons.prems(1) this] show ?thesis
      by (simp only: append_Cons walkFn_pass [where visited = visited and IsEntry = IsEntry, OF pass])
  next
    case cancel
    show ?thesis
      unfolding cancel(5) append_Cons
      by (simp only: walkFn_cancel [where visited = visited and IsEntry = IsEntry, OF cancel(1-4)])
  next
    case (send k k')
    have "(visited(name x := True)) (name v)
        \<or> (\<exists>u \<in> set pre. isRegular u \<and> IsEntry (path u) \<and> name u = name v)"
      using Cons.prems(2) by auto
    from Cons.IH [where visited = "visited(name x := True)", OF Cons.prems(1) this]
    show ?thesis
      by (simp only: append_Cons walkFn_send [where visited = visited and IsEntry = IsEntry, OF send])
  qed
qed

text \<open>
  The first regular entry file of a base name is sent, unless the walk has ended with an
  error by then.
\<close>

lemma walkFn_first:
  "isRegular v \<Longrightarrow> IsEntry (path v) \<Longrightarrow> \<not> visited (name v) \<Longrightarrow>
   \<forall>u \<in> set pre. isRegular u \<and> IsEntry (path u) \<longrightarrow> name u \<noteq> name v \<Longrightarrow>
   snd (walkFn IsEntry sends visited (pre @ [v])) = None \<Longrightarrow>
   v \<in> set (fst (walkFn IsEntry sends visited (pre @ v # post)))"
proof (induction pre arbitrary: sends visited)
  case Nil
  show ?case
  proof (cases rule: walkFn_cases [where x = v and visited = visited and IsEntry = IsEntry and sends = sends])
    case (err e')
    with Nil.prems(5) show ?thesis by (simp add: walkFn_err)
  next
    case pass
    with Nil.prems(1-3) show ?thesis by simp
  next
    case cancel
    with Nil.prems(5) show ?thesis by (simp add: walkFn_cancel)
  next
    case (send k k')
    show ?thesis by (simp only: append_Nil walkFn_send [where visited = visited and IsEntry = IsEntry, OF send]) simp
  qed
next
  case (Cons x pre)
  have later: "\<forall>u \<in> set pre. isRegular u \<and> IsEntry (path u) \<longrightarrow> name u \<noteq> name v"
    using Cons.prems(4) by simp
  show ?case
  proof (cases rule: walkFn_cases [where x = x and visited = visited and IsEntry = IsEntry and sends = sends])
    case (err e')
    with Cons.prems(5) show ?thesis by (simp add: walkFn_err)
  next
    case pass
    from Cons.prems(5) have "snd (walkFn IsEntry sends visited (pre @ [v])) = None"
      by (simp only: append_Cons walkFn_pass [where visited = visited and IsEntry = IsEntry, OF pass])
    from Cons.IH [where visited = visited, OF Cons.prems(1-3) later this] show ?thesis
      by (simp only: append_Cons walkFn_pass [where visited = visited and IsEntry = IsEntry, OF pass])
  next
    case cancel
    with Cons.prems(5) show ?thesis by (simp add: walkFn_cancel)
  next
    case (send k k')
    have "name x \<noteq> name v"
      using Cons.prems(4) send(2,4) by simp
    then have nv: "\<not> (visited(name x := True)) (name v)"
      using Cons.prems(3) by simp
    from Cons.prems(5)
    have "snd (walkFn IsEntry k' (visited(name x := True)) (pre @ [v])) = None"
      by (simp only: append_Cons walkFn_send [where visited = visited and IsEntry = IsEntry, OF send] snd_conv)
    from Cons.IH [where visited = "visited(name x := True)", OF Cons.prems(1,2) nv later this]
    show ?thesis
      by (simp only: append_Cons walkFn_send [where visited = visited and IsEntry = IsEntry, OF send] fst_conv list.set insert_iff) simp
  qed
qed

text \<open>
  C6. \<^verbatim>\<open>walkFiles\<close> puts on the channel the paths of the visits that the callback sends,
  and the callback sends each base name at most once. Where a regular entry file \<open>u\<close> comes
  before a file \<open>v\<close> of the same base name, \<open>v\<close> is passed over silently: the walk sends
  the same paths and ends with the same error as if \<open>v\<close> were not there. And the first
  regular entry file of a base name is sent, provided the walk has not ended with an
  error (of the file system, or \<^verbatim>\<open>walk canceled\<close>) when it is through with that file.
\<close>

theorem walkFn_base_name_once:
  assumes "walkFn IsEntry sends (\<lambda>n. False) vs = (sent, e)"
  shows "walkFiles IsEntry sends vs = (map path sent, e)
    \<and> distinct (map name sent)
    \<and> (\<forall>pre u mid v post.
          vs = pre @ u # mid @ v # post \<and> isRegular u \<and> IsEntry (path u)
          \<and> name v = name u \<and> walkErr v = None
          \<longrightarrow> walkFn IsEntry sends (\<lambda>n. False) (pre @ u # mid @ post) = (sent, e))
    \<and> (\<forall>pre v post.
          vs = pre @ v # post \<and> isRegular v \<and> IsEntry (path v)
          \<and> (\<forall>u \<in> set pre. isRegular u \<and> IsEntry (path u) \<longrightarrow> name u \<noteq> name v)
          \<and> snd (walkFn IsEntry sends (\<lambda>n. False) (pre @ [v])) = None
          \<longrightarrow> v \<in> set sent)"
proof (intro conjI allI impI)
  show "walkFiles IsEntry sends vs = (map path sent, e)"
    by (simp add: walkFiles_def assms)
next
  show "distinct (map name sent)"
    using walkFn_sent [OF assms] by simp
next
  fix pre u mid v post
  assume a: "vs = pre @ u # mid @ v # post \<and> isRegular u \<and> IsEntry (path u)
    \<and> name v = name u \<and> walkErr v = None"
  then have "walkFn IsEntry sends (\<lambda>n. False) ((pre @ u # mid) @ v # post)
      = walkFn IsEntry sends (\<lambda>n. False) ((pre @ u # mid) @ post)"
    by (intro walkFn_skip [where visited = "\<lambda>n. False" and IsEntry = IsEntry]) auto
  with a assms show "walkFn IsEntry sends (\<lambda>n. False) (pre @ u # mid @ post) = (sent, e)"
    by simp
next
  fix pre v post
  assume a: "vs = pre @ v # post \<and> isRegular v \<and> IsEntry (path v)
    \<and> (\<forall>u \<in> set pre. isRegular u \<and> IsEntry (path u) \<longrightarrow> name u \<noteq> name v)
    \<and> snd (walkFn IsEntry sends (\<lambda>n. False) (pre @ [v])) = None"
  then have "v \<in> set (fst (walkFn IsEntry sends (\<lambda>n. False) (pre @ v # post)))"
    by (intro walkFn_first [where visited = "\<lambda>n. False" and IsEntry = IsEntry]) auto
  with a assms show "v \<in> set sent"
    by simp
qed

theorem walkFn_base_name_once_witness:
  "walkFn (\<lambda>p. True) None (\<lambda>n. False) [fileA1, dirB, fileB1, fileB3]
     = ([fileA1, fileB3], None)
   \<and> walkFiles (\<lambda>p. True) None [fileA1, dirB, fileB1, fileB3]
     = ([''/j/a/2024-01-01.md'', ''/j/b/2024-01-03.md''], None)
   \<and> distinct (map name [fileA1, fileB3])
   \<and> walkFn (\<lambda>p. True) None (\<lambda>n. False) [fileA1, dirB, fileB3] = ([fileA1, fileB3], None)
   \<and> fileA1 \<in> set [fileA1, fileB3]
   \<and> name fileB1 = name fileA1 \<and> path fileB1 \<noteq> path fileA1"
proof -
  let ?vs = "[fileA1, dirB, fileB1, fileB3]"
  have h: "walkFn (\<lambda>p. True) None (\<lambda>n. False) ?vs = ([fileA1, fileB3], None)"
    by (simp add: fileA1_def dirB_def fileB1_def fileB3_def)
  note T = walkFn_base_name_once [OF h]
  from T have "walkFiles (\<lambda>p. True) None ?vs = (map path [fileA1, fileB3], None)"
    by (rule conjunct1)
  then have c: "walkFiles (\<lambda>p. True) None ?vs
      = ([''/j/a/2024-01-01.md'', ''/j/b/2024-01-03.md''], None)"
    by (simp add: fileA1_def fileB3_def)
  from T have d: "distinct (map name [fileA1, fileB3])"
    by blast
  have n: "name fileB1 = name fileA1 \<and> path fileB1 \<noteq> path fileA1"
    by (simp add: fileA1_def fileB1_def)
  have "?vs = [] @ fileA1 # [dirB] @ fileB1 # [fileB3] \<and> isRegular fileA1 \<and> True
      \<and> name fileB1 = name fileA1 \<and> walkErr fileB1 = None"
    by (simp add: fileA1_def fileB1_def)
  with T have s: "walkFn (\<lambda>p. True) None (\<lambda>n. False) ([] @ fileA1 # [dirB] @ [fileB3])
      = ([fileA1, fileB3], None)"
    by blast
  have "snd (walkFn (\<lambda>p. True) None (\<lambda>n. False) ([] @ [fileA1])) = None"
    by (simp add: fileA1_def)
  then have "?vs = [] @ fileA1 # [dirB, fileB1, fileB3] \<and> isRegular fileA1 \<and> True
      \<and> (\<forall>u \<in> set []. isRegular u \<and> True \<longrightarrow> name u \<noteq> name fileA1)
      \<and> snd (walkFn (\<lambda>p. True) None (\<lambda>n. False) ([] @ [fileA1])) = None"
    by (simp add: fileA1_def)
  with T have f: "fileA1 \<in> set [fileA1, fileB3]"
    by blast
  from h c d s f n show ?thesis by simp
qed


subsection \<open>Relative frequencies and their order\<close>

lemma fgt_asym: "fgt a b \<Longrightarrow> \<not> fgt b a"
  by (cases a; cases b) auto

lemma fgt_negtrans:
  "a \<noteq> NaN \<Longrightarrow> b \<noteq> NaN \<Longrightarrow> c \<noteq> NaN \<Longrightarrow> fgt a c \<Longrightarrow> fgt a b \<or> fgt b c"
  by (cases a; cases b; cases c) auto


text \<open>Multiplying a quotient by \<open>- 1\<close> is exact: it changes the sign.\<close>

lemma fmul_round64_minus_one: "fmul (round64 q) (Fin (- 1)) = fneg (round64 q)"
proof (cases "round64 q")
  case (Fin v)
  then have "round64 v = Fin v" by (rule round64_idem)
  then have "round64 (- v) = Fin (- v)" by (simp add: round64_minus)
  with Fin show ?thesis by simp
qed simp_all

lemma fmul_fdiv_minus_one: "fmul (fdiv x y) (Fin (- 1)) = fneg (fdiv x y)"
  by (cases x; cases y) (simp_all add: fmul_round64_minus_one round64_0)

text \<open>
  One insertion keeps the reversed prefix ordered, when \<open>lt\<close> is asymmetric and, on the
  elements at hand, negatively transitive.
\<close>

lemma sorted_shift:
  assumes asym: "\<And>a b. lt a b \<Longrightarrow> \<not> lt b a"
    and nt: "\<And>a b c. a \<in> A \<Longrightarrow> b \<in> A \<Longrightarrow> c \<in> A \<Longrightarrow> lt a c \<Longrightarrow> lt a b \<or> lt b c"
  shows "x \<in> A \<Longrightarrow> set ys \<subseteq> A \<Longrightarrow> sorted_wrt (\<lambda>a b. \<not> lt a b) ys \<Longrightarrow>
           sorted_wrt (\<lambda>a b. \<not> lt a b) (shift lt x ys)"
proof (induction ys)
  case Nil
  then show ?case by simp
next
  case (Cons y ys)
  have mem: "set (shift lt x ys) = insert x (set ys)"
    using mset_shift [of lt x ys] by (metis set_mset_add_mset_insert set_mset_mset)
  show ?case
  proof (cases "lt x y")
    case True
    then have "\<not> lt y x" by (rule asym)
    with True Cons show ?thesis by (simp add: mem)
  next
    case False
    have "\<not> lt x z" if "z \<in> set ys" for z
    proof
      assume "lt x z"
      with Cons.prems that have "lt x y \<or> lt y z"
        by (intro nt) auto
      with False Cons.prems(3) that show False by auto
    qed
    with False Cons.prems(3) show ?thesis by auto
  qed
qed

lemma sorted_fold_shift:
  assumes asym: "\<And>a b. lt a b \<Longrightarrow> \<not> lt b a"
    and nt: "\<And>a b c. a \<in> A \<Longrightarrow> b \<in> A \<Longrightarrow> c \<in> A \<Longrightarrow> lt a c \<Longrightarrow> lt a b \<or> lt b c"
  shows "set xs \<subseteq> A \<Longrightarrow> set acc \<subseteq> A \<Longrightarrow> sorted_wrt (\<lambda>a b. \<not> lt a b) acc \<Longrightarrow>
           sorted_wrt (\<lambda>a b. \<not> lt a b) (fold (shift lt) xs acc)"
proof (induction xs arbitrary: acc)
  case Nil
  then show ?case by simp
next
  case (Cons x xs)
  have mem: "set (shift lt x acc) = insert x (set acc)"
    using mset_shift [of lt x acc] by (metis set_mset_add_mset_insert set_mset_mset)
  have "sorted_wrt (\<lambda>a b. \<not> lt a b) (shift lt x acc)"
    using Cons.prems by (intro sorted_shift [where A = A] asym nt) auto
  with Cons.prems mem show ?case
    by (simp add: Cons.IH)
qed

text \<open>
  The library's contract for the model of \<^verbatim>\<open>sort.Slice\<close>: the result is a permutation in
  which no element is \<open>lt\<close> an element before it.
\<close>

lemma sorted_sortSlice:
  assumes "\<And>a b. lt a b \<Longrightarrow> \<not> lt b a"
    and "\<And>a b c. a \<in> set xs \<Longrightarrow> b \<in> set xs \<Longrightarrow> c \<in> set xs \<Longrightarrow> lt a c \<Longrightarrow> lt a b \<or> lt b c"
  shows "sorted_wrt (\<lambda>a b. \<not> lt b a) (sortSlice lt xs)"
proof -
  have "sorted_wrt (\<lambda>a b. \<not> lt a b) (fold (shift lt) xs [])"
    using assms by (intro sorted_fold_shift [where A = "set xs"]) auto
  then show ?thesis
    by (simp add: sortSlice_def sorted_wrt_rev)
qed

lemma set_sortSlice: "set (sortSlice lt xs) = set xs"
  using mset_sortSlice [of lt xs] by (metis set_mset_mset)

text \<open>The value read from a table whose numbers lie between 0 and 1.\<close>

lemma refIndex_unit:
  assumes "\<forall>r \<in> snd ` set refFreqs. 0 \<le> r \<and> r \<le> 1"
  shows "\<exists>q. refIndex refFreqs w = Fin q \<and> 0 \<le> q \<and> q \<le> 1"
proof -
  define r where "r = (case map_of refFreqs w of None \<Rightarrow> 0 | Some r \<Rightarrow> r)"
  have r: "0 \<le> r \<and> r \<le> 1"
  proof (cases "map_of refFreqs w")
    case None
    then show ?thesis by (simp add: r_def)
  next
    case (Some x)
    then have "(w, x) \<in> set refFreqs" by (rule map_of_SomeD)
    with assms have "0 \<le> x \<and> x \<le> 1" by force
    with Some show ?thesis by (simp add: r_def)
  qed
  then have "\<exists>v. round64 r = Fin v \<and> 0 \<le> v \<and> v \<le> of_int 1 * 2 powi 0"
    by (intro round64_upper) (simp_all add: overflow_def)
  then show ?thesis
    by (simp add: refIndex_def r_def)
qed

text \<open>A count that is not 0 converts to a number from 1 to \<open>2 ^ 64\<close>.\<close>

lemma float64_of_uint64_range:
  assumes "n \<noteq> 0"
  shows "\<exists>a. float64_of_uint64 n = Fin a \<and> 1 \<le> a \<and> a \<le> 2 ^ 64"
proof -
  define x :: rat where "x = of_nat (unat n)"
  have "0 < unat n" using assms by (simp add: unat_gt_0)
  then have "1 \<le> unat n" by simp
  then have "(of_nat 1 :: rat) \<le> of_nat (unat n)" by (simp only: of_nat_le_iff)
  then have lo: "1 \<le> x" by (simp add: x_def)
  have "unat n < 2 ^ 64" using unsigned_less [of n] by simp
  then have "(of_nat (unat n) :: rat) < of_nat (2 ^ 64)" by (simp only: of_nat_less_iff)
  then have hi: "x < 2 ^ 64" by (simp add: x_def)
  have "\<exists>v. round64 x = Fin v \<and> 0 \<le> v \<and> v \<le> of_int 1 * 2 powi 64"
    using lo hi by (intro round64_upper) (simp_all add: overflow_def)
  then obtain v where v: "round64 x = Fin v" "v \<le> 2 ^ 64" by auto
  have "(2::rat) powi 0 \<le> x" using lo by simp
  then have "0 \<le> exponent x" by (rule exponent_ge) simp
  then have one: "(1::rat) \<le> 2 powi (exponent x)"
    using two_powi_le [of 0 "exponent x"] by simp
  have "(2::rat) powi (- 1022) \<le> 2 powi 0" by (rule two_powi_le) simp
  also have "(2::rat) powi 0 \<le> x" using lo by simp
  finally have "2 powi (- 1022) \<le> x" .
  from round64_lower [OF this] v(1) one have "1 \<le> v" by auto
  with v show ?thesis by (simp add: float64_of_uint64_def x_def)
qed

text \<open>
  The observed frequency of a word that was counted at least once is positive, or
  infinite when the total has wrapped to 0.
\<close>

lemma frequency_positive:
  assumes "n \<noteq> 0"
  shows "fdiv (float64_of_uint64 n) (float64_of_uint64 wordCount) = PInf
    \<or> (\<exists>c. fdiv (float64_of_uint64 n) (float64_of_uint64 wordCount) = Fin c \<and> 0 < c)"
proof -
  from float64_of_uint64_range [OF assms] obtain a where
    a: "float64_of_uint64 n = Fin a" "1 \<le> a" by blast
  show ?thesis
  proof (cases "wordCount = 0")
    case True
    with a show ?thesis by (simp add: float64_of_uint64_def round64_0)
  next
    case False
    from float64_of_uint64_range [OF this] obtain b where
      b: "float64_of_uint64 wordCount = Fin b" "1 \<le> b" "b \<le> 2 ^ 64" by blast
    have "1 / 2 ^ 64 \<le> 1 / b"
      using b(2,3) by (simp add: frac_le)
    also have "1 / b \<le> a / b"
      using a(2) b(2) by (simp add: divide_right_mono)
    finally have q: "2 powi (- 64) \<le> a / b"
      by (simp add: power_int_minus inverse_eq_divide)
    have "(2::rat) powi (- 1022) \<le> 2 powi (- 64)" by (rule two_powi_le) simp
    from this q have "2 powi (- 1022) \<le> a / b" by (rule order_trans)
    have "(0::rat) < 2 powi (exponent (a / b))" by simp
    with round64_lower [OF \<open>2 powi (- 1022) \<le> a / b\<close>] have "round64 (a / b) = PInf
        \<or> (\<exists>v. round64 (a / b) = Fin v \<and> 0 < v)"
      by (elim disjE exE conjE) (simp, metis less_le_trans)
    with a b show ?thesis by simp
  qed
qed

text \<open>
  What lines 96 to 105 compute, in the words of the specification: \<open>f / r\<close> when
  \<open>f > r\<close> and \<open>r > 0\<close>, \<open>0\<close> when \<open>f > r\<close> and \<open>r = 0\<close>, and \<open>- (r / f)\<close> otherwise.
\<close>

lemma relFrequency_cases:
  assumes "\<forall>r \<in> snd ` set refFreqs. 0 \<le> r \<and> r \<le> 1"
  shows "relFrequency refFreqs wordCount w n =
           (let f = fdiv (float64_of_uint64 n) (float64_of_uint64 wordCount);
                r = refIndex refFreqs w
            in if fgt f r \<and> fgt r (Fin 0) then fdiv f r
               else if fgt f r \<and> r = Fin 0 then Fin 0
               else fneg (fdiv r f))"
proof -
  obtain q where q: "refIndex refFreqs w = Fin q" "0 \<le> q"
    using refIndex_unit [OF assms] by blast
  then show ?thesis
    by (auto simp: relFrequency_def Let_def fmul_fdiv_minus_one)
qed

text \<open>The relative frequency of a word that was counted at least once is a number.\<close>

lemma relFrequency_not_NaN:
  assumes "\<forall>r \<in> snd ` set refFreqs. 0 \<le> r \<and> r \<le> 1" and "n \<noteq> 0"
  shows "relFrequency refFreqs wordCount w n \<noteq> NaN"
proof -
  obtain q where q: "refIndex refFreqs w = Fin q" "0 \<le> q"
    using refIndex_unit [OF assms(1)] by blast
  have neg: "fneg x \<noteq> NaN" if "x \<noteq> NaN" for x
    using that by (cases x) simp_all
  from frequency_positive [OF assms(2), of wordCount] show ?thesis
  proof (elim disjE exE conjE)
    assume "fdiv (float64_of_uint64 n) (float64_of_uint64 wordCount) = PInf"
    with q show ?thesis
      by (simp add: relFrequency_def Let_def)
  next
    fix c
    assume "fdiv (float64_of_uint64 n) (float64_of_uint64 wordCount) = Fin c" and "0 < c"
    with q show ?thesis
      by (simp add: relFrequency_def Let_def fmul_round64_minus_one neg round64_not_NaN)
  qed
qed


text \<open>
  300 occurrences in 1000 words against a reference frequency of 0.3: the quotient
  rounds to the \<^verbatim>\<open>float64\<close> that the table holds, the comparison \<open>f > r\<close> fails, and the
  relative frequency is \<open>- 1\<close>.
\<close>

lemma round64_three_tenths: "round64 (3 / 10) = Fin (5404319552844595 / 18014398509481984)"
  using round64_eval [where x = "3 / 10" and e = "- 2" and n = 5404319552844595]
  by (simp add: overflow_def)

lemma relFrequency_at_the_reference:
  "relFrequency [(''said'', 3 / 10)] 1000 ''said'' 300 = Fin (- 1)"
  by (simp add: relFrequency_def refIndex_def float64_of_uint64_def round64_numeral
      round64_three_tenths round64_1 round64_minus [of 1, simplified])

lemma set_ranked:
  "set (ranked refFreqs wordCount m keys) =
     (\<lambda>w. \<lparr>word = w, occurrences = index0 m w,
            frequency = relFrequency refFreqs wordCount w (index0 m w)\<rparr>) ` set keys"
  by (simp add: ranked_def set_sortSlice wordStats_def)

lemma word_ranked: "mset (map word (ranked refFreqs wordCount m keys)) = mset keys"
proof -
  have "mset (map word (ranked refFreqs wordCount m keys))
          = mset (map word (wordStats refFreqs wordCount m keys))"
    by (simp add: ranked_def mset_sortSlice)
  also have "map word (wordStats refFreqs wordCount m keys) = keys"
    by (simp add: wordStats_def comp_def)
  finally show ?thesis .
qed

text \<open>
  The ranked list is in descending order when every word in it was counted at least once
  and every reference frequency lies between 0 and 1.
\<close>

lemma rangeOrder_counted:
  assumes "rangeOrder m keys" and "\<forall>w \<in> dom m. m w \<noteq> Some 0"
  shows "\<forall>w \<in> set keys. index0 m w \<noteq> 0"
  using assms by (auto simp: rangeOrder_def index0_def)

lemma frequency_ranked:
  assumes "\<forall>r \<in> snd ` set refFreqs. 0 \<le> r \<and> r \<le> 1" and "\<forall>w \<in> set keys. index0 m w \<noteq> 0"
    and "s \<in> set (ranked refFreqs wordCount m keys)"
  shows "frequency s \<noteq> NaN"
proof -
  from assms(3) obtain w where "w \<in> set keys"
    and "s = \<lparr>word = w, occurrences = index0 m w,
      frequency = relFrequency refFreqs wordCount w (index0 m w)\<rparr>"
    by (auto simp: set_ranked)
  with assms(2) relFrequency_not_NaN [OF assms(1)] show ?thesis by simp
qed

lemma sorted_ranked:
  assumes "\<forall>r \<in> snd ` set refFreqs. 0 \<le> r \<and> r \<le> 1" and "\<forall>w \<in> set keys. index0 m w \<noteq> 0"
  shows "sorted_wrt (\<lambda>a b. fge (frequency a) (frequency b)) (ranked refFreqs wordCount m keys)"
proof -
  let ?S = "wordStats refFreqs wordCount m keys"
  have num: "frequency s \<noteq> NaN" if "s \<in> set ?S" for s
    using that frequency_ranked [OF assms, of s wordCount]
    by (simp add: ranked_def set_sortSlice)
  have "sorted_wrt (\<lambda>a b. \<not> byFrequency b a) (sortSlice byFrequency ?S)"
  proof (rule sorted_sortSlice)
    show "\<not> byFrequency b a" if "byFrequency a b" for a b
      using that by (simp add: byFrequency_def fgt_asym)
    show "byFrequency a b \<or> byFrequency b c"
      if "a \<in> set ?S" "b \<in> set ?S" "c \<in> set ?S" "byFrequency a c" for a b c
      using that(4) num [OF that(1)] num [OF that(2)] num [OF that(3)]
      unfolding byFrequency_def by (intro fgt_negtrans)
  qed
  then show ?thesis
    unfolding ranked_def
    by (rule sorted_wrt_mono_rel [rotated])
      (simp add: fge_def byFrequency_def num set_sortSlice)
qed

text \<open>The quotients of the sample table.\<close>

lemma round64_three_fifths: "round64 (3 / 5) = Fin (5404319552844595 / 9007199254740992)"
  using round64_eval [where x = "3 / 5" and e = "- 1" and n = 5404319552844595]
  by (simp add: overflow_def)

lemma round64_one_hundredth:
  "round64 (1 / 100) = Fin (5764607523034235 / 576460752303423488)"
  using round64_eval [where x = "1 / 100" and e = "- 7" and n = 5764607523034235]
  by (simp add: overflow_def)

lemma round64_one_half: "round64 (1 / 2) = Fin (1 / 2)"
  using round64_eval [where x = "1 / 2" and e = "- 1" and n = 4503599627370496]
  by (simp add: overflow_def)

lemma round64_sixty: "round64 (69175290276410816 / 1152921504606847) = Fin 60"
  using round64_eval [where x = "69175290276410816 / 1152921504606847" and e = 5
      and n = 8444249301319680]
  by (simp add: overflow_def)

lemma round64_five_halves': "round64 (9007199254740992 / 3602879701896397) = Fin (5 / 2)"
  using round64_eval [where x = "9007199254740992 / 3602879701896397" and e = 1
      and n = 5629499534213120]
  by (simp add: overflow_def)

text \<open>The sample map: its total, and its ranked list against the sample table.\<close>

lemma rangeOrder_sample: "rangeOrder sampleCounts sampleKeys"
  by (auto simp: rangeOrder_def sampleCounts_def sampleKeys_def)

lemma sampleRef_unit: "\<forall>r \<in> snd ` set sampleRef. 0 \<le> r \<and> r \<le> 1"
  by (simp add: sampleRef_def)

lemma counted_sample: "\<forall>w \<in> dom sampleCounts. sampleCounts w \<noteq> Some 0"
  by (auto simp: sampleCounts_def split: if_splits)

lemma sumCounts_sample: "sumCounts sampleCounts sampleKeys = 5"
  by (simp add: sumCounts_def sampleCounts_def sampleKeys_def index0_def)

lemma ranked_sample:
  "ranked sampleRef 5 sampleCounts sampleKeys
     = [\<lparr>word = ''hi'', occurrences = 3, frequency = Fin 60\<rparr>,
        \<lparr>word = ''there'', occurrences = 1, frequency = Fin 0\<rparr>,
        \<lparr>word = ''world'', occurrences = 1, frequency = Fin (- 5 / 2)\<rparr>]"
  by (simp add: ranked_def wordStats_def sortSlice_def relFrequency_def refIndex_def
      index0_def float64_of_uint64_def byFrequency_def sampleCounts_def sampleKeys_def
      sampleRef_def Let_def round64_numeral round64_0 round64_1 round64_three_fifths
      round64_one_fifth round64_one_hundredth round64_one_half round64_sixty
      round64_five_halves' round64_minus [of "5 / 2", simplified] round64_five_halves)

text \<open>
  C4. Let \<open>keys\<close> list the words of the merged map \<open>m\<close>, each of them counted at least
  once, and let every reference frequency lie between 0 and 1. All quotients are those of
  \<^verbatim>\<open>float64\<close>. Then the list that \<^verbatim>\<open>Run\<close> ranks has
  one element for each word; with \<open>f\<close> the count of the word over the total count and \<open>r\<close>
  its reference frequency (0 if the table lacks it), its relative frequency is \<open>f / r\<close>
  when \<open>f > r\<close> and \<open>r > 0\<close>, is 0 when \<open>f > r\<close> and \<open>r = 0\<close>, and is \<open>- (r / f)\<close>
  otherwise; and the list is in descending order of relative frequency.
\<close>

theorem ranked_relative_frequency:
  assumes "rangeOrder m keys"
    and "\<forall>r \<in> snd ` set refFreqs. 0 \<le> r \<and> r \<le> 1"
    and "\<forall>w \<in> dom m. m w \<noteq> Some 0"
  shows "mset (map word (ranked refFreqs (sumCounts m keys) m keys)) = mset keys
    \<and> (\<forall>s \<in> set (ranked refFreqs (sumCounts m keys) m keys).
          m (word s) = Some (occurrences s)
          \<and> frequency s =
              (let f = fdiv (float64_of_uint64 (occurrences s))
                         (float64_of_uint64 (sumCounts m keys));
                   r = refIndex refFreqs (word s)
               in if fgt f r \<and> fgt r (Fin 0) then fdiv f r
                  else if fgt f r \<and> r = Fin 0 then Fin 0
                  else fneg (fdiv r f)))
    \<and> sorted_wrt (\<lambda>a b. fge (frequency a) (frequency b))
          (ranked refFreqs (sumCounts m keys) m keys)"
proof (intro conjI ballI)
  let ?W = "sumCounts m keys"
  let ?R = "ranked refFreqs ?W m keys"
  show "mset (map word ?R) = mset keys"
    by (rule word_ranked)
  have counted: "\<forall>w \<in> set keys. index0 m w \<noteq> 0"
    using assms(1,3) by (rule rangeOrder_counted)
  show "sorted_wrt (\<lambda>a b. fge (frequency a) (frequency b)) ?R"
    using assms(2) counted by (rule sorted_ranked)
  fix s assume "s \<in> set ?R"
  then obtain w where w: "w \<in> dom m"
    and s: "s = \<lparr>word = w, occurrences = index0 m w,
      frequency = relFrequency refFreqs ?W w (index0 m w)\<rparr>"
    using assms(1) by (auto simp: set_ranked rangeOrder_def)
  from w show "m (word s) = Some (occurrences s)"
    by (auto simp: s index0_def)
  show "frequency s =
      (let f = fdiv (float64_of_uint64 (occurrences s)) (float64_of_uint64 ?W);
           r = refIndex refFreqs (word s)
       in if fgt f r \<and> fgt r (Fin 0) then fdiv f r
          else if fgt f r \<and> r = Fin 0 then Fin 0
          else fneg (fdiv r f))"
    by (simp add: s relFrequency_cases [OF assms(2)])
qed

theorem ranked_relative_frequency_witness:
  "sumCounts sampleCounts sampleKeys = 5
   \<and> ranked sampleRef 5 sampleCounts sampleKeys
       = [\<lparr>word = ''hi'', occurrences = 3, frequency = Fin 60\<rparr>,
          \<lparr>word = ''there'', occurrences = 1, frequency = Fin 0\<rparr>,
          \<lparr>word = ''world'', occurrences = 1, frequency = Fin (- 5 / 2)\<rparr>]
   \<and> mset (map word (ranked sampleRef 5 sampleCounts sampleKeys)) = mset sampleKeys
   \<and> sorted_wrt (\<lambda>a b. fge (frequency a) (frequency b))
        (ranked sampleRef 5 sampleCounts sampleKeys)"
proof -
  note T = ranked_relative_frequency [OF rangeOrder_sample sampleRef_unit counted_sample,
      unfolded sumCounts_sample]
  from T have words: "mset (map word (ranked sampleRef 5 sampleCounts sampleKeys))
      = mset sampleKeys"
    by (rule conjunct1)
  from T have order: "sorted_wrt (\<lambda>a b. fge (frequency a) (frequency b))
      (ranked sampleRef 5 sampleCounts sampleKeys)"
    by (elim conjE)
  from sumCounts_sample ranked_sample words order show ?thesis
    by (intro conjI)
qed

subsection \<open>Two runs over the same journal\<close>

text \<open>
  Two runs over an unchanged tree receive the same results, in an order that the
  scheduling of the scanners decides; each run reads its own clock, and each \<^verbatim>\<open>range\<close>
  over the merged map takes its own order.
\<close>

lemma receive_error_iff:
  "(\<exists>e rest. receive s c = (Inl e, rest)) \<longleftrightarrow> (\<exists>r \<in> set c. err r \<noteq> None)"
  by (induction c arbitrary: s) (auto split: option.splits)

text \<open>A run that receives a result with an error prints nothing.\<close>

lemma stdout_Run_error:
  assumes "\<exists>r \<in> set c. err r \<noteq> None"
  shows "stdout (Run t refFreqs c errc keys) = []"
proof -
  from assms obtain e rest where "receive (initial t) c = (Inl e, rest)"
    using receive_error_iff [of "initial t" c] by blast
  then show ?thesis by (simp add: Run_def)
qed































text \<open>
  The scenario of the specification, with time counted from the first entry: entries
  dated day 0 and day 2 with the words \<open>Hi hi there\<close> and \<open>Hi world\<close>, read on day 9,
  with no reference table. Two entries, 5 words, 2.5 words an entry, and 2 entries in 9
  days: the \<^verbatim>\<open>float64\<close> that prints as 22.22 percent.
\<close>

lemma Run_scenario:
  "Run (9 * Day) [] [entryA, entryB] None [''hi'', ''there'', ''world'']
     = \<lparr>stdout = [PercentLine (Fin (3127499741229511 / 140737488355328)) 0, TotalLine 5,
                  AverageLine (Fin (5 / 2)), BlankLine],
        status = Returned None, unread = []\<rparr>"
  by (simp add: Run_def entryA_def entryB_def Day_def initial_def accumulate_def
      increment_def addCounts_def index0_def After_def report_def percent_def
      percentDivisor_def Sub_def minDuration_def maxDuration_def Hours_def Hour_def
      float64_of_uint64_def float64_of_int_def sumCounts_def signed_divide_int_def
      signed_modulo_int_def round64_numeral round64_0 round64_two_ninths
      round64_percent_day_9 round64_five_halves)

end
